theory Spec2Isabelle
  imports Complex_Main
begin

section \<open>The advancing front of TQMesh (src/algorithm/Front.h)\<close>

text \<open>
  The class \<open>Front\<close> extends the oriented edge container \<open>EdgeList\<close>. Its methods mutate
  the list of edges it owns, the vertex store it is handed by reference and the raw pointer
  \<open>base\<close>. The embedding passes that state explicitly:
  \<^item> an object is named by its address (a natural number); an \<open>Edge\<close> holds the addresses
    of its two vertices, as the C++ edge holds two references;
  \<^item> the edge container is the list of its nodes in container order, each node the
    address of the edge and the edge; an iterator is the address of a node, the past-the-end
    iterator is \<open>None\<close>;
  \<^item> the vertex store is a heap from addresses to vertices and the list of the addresses
    it holds, in container order;
  \<^item> \<open>double\<close> is modelled by \<open>real\<close>: rounding, infinities and NaN are outside
    the model;
  \<^item> a call that does not return normally has the result \<open>None\<close>: a marching loop that
    never stops, a failed \<open>ASSERT\<close>, an iterator or a pointer that does not designate a
    node of the container it is used with.
\<close>

subsection \<open>Geometric primitives\<close>

type_synonym addr = nat

type_synonym Vec2d = "real \<times> real"

text \<open>
  Modelled from the spec: the header \<open>Vec2.h\<close> is not part of the sources. The spec names
  a 2D vector type with arithmetic and length; these are the componentwise operations and
  the Euclidean length that \<open>Front.h\<close> applies to \<open>Vec2d\<close> values.
\<close>

definition vadd :: "Vec2d \<Rightarrow> Vec2d \<Rightarrow> Vec2d" where
  "vadd p q = (fst p + fst q, snd p + snd q)"

definition vsub :: "Vec2d \<Rightarrow> Vec2d \<Rightarrow> Vec2d" where
  "vsub p q = (fst p - fst q, snd p - snd q)"

definition smul :: "real \<Rightarrow> Vec2d \<Rightarrow> Vec2d" where
  "smul c p = (c * fst p, c * snd p)"

definition vneg :: "Vec2d \<Rightarrow> Vec2d" where
  "vneg p = (- fst p, - snd p)"

definition vlength :: "Vec2d \<Rightarrow> real" where
  "vlength p = sqrt (fst p * fst p + snd p * snd p)"

definition cross :: "Vec2d \<Rightarrow> Vec2d \<Rightarrow> real" where
  "cross p q = fst p * snd q - snd p * fst q"

subsection \<open>Vertices, edges, the domain\<close>

text \<open>
  Modelled from the spec: \<open>Vertex.h\<close>, \<open>Edge.h\<close>, \<open>EdgeList.h\<close> and \<open>Domain.h\<close> are not
  part of the sources. A vertex is a point with the flags \<open>is_fixed\<close>, \<open>on_boundary\<close> and
  \<open>on_front\<close> and the weight given to \<open>Vertices::insert\<close>; an edge is a directed segment
  with an integer marker; the domain offers its size function and its boundaries, each an
  ordered sequence of edges.
\<close>

record Vertex =
  xy :: Vec2d
  weight :: real
  is_fixed :: bool
  on_boundary :: bool
  on_front :: bool

record Edge =
  v1 :: addr
  v2 :: addr
  marker :: int

record Vertices =
  v_heap :: "addr \<Rightarrow> Vertex"
  v_items :: "addr list"
  v_next :: addr

record Domain =
  size_function :: "Vec2d \<Rightarrow> real"
  boundaries :: "Edge list list"

text \<open>
  The members of \<open>Front\<close>, named without the trailing underscore of the source: the edge
  container \<open>edges\<close> and the area \<open>area\<close> inherited from \<open>EdgeList\<close>, and the pointer
  \<open>base\<close> (\<open>None\<close> is \<open>nullptr\<close>). \<open>e_next\<close> is the address the allocator gives to the
  next edge.
\<close>

record Front =
  edges :: "(addr \<times> Edge) list"
  area :: real
  base :: "addr option"
  e_next :: addr

text \<open>
  Modelled from the spec: \<open>Edge::length()\<close> and \<open>Edge::tangent()\<close>, the length of the segment
  and the unit direction from \<open>v1\<close> to \<open>v2\<close>.
\<close>

definition edge_length :: "Vertices \<Rightarrow> Edge \<Rightarrow> real" where
  "edge_length V e = vlength (vsub (xy (v_heap V (v2 e))) (xy (v_heap V (v1 e))))"

definition edge_tangent :: "Vertices \<Rightarrow> Edge \<Rightarrow> Vec2d" where
  "edge_tangent V e =
     smul (1 / edge_length V e) (vsub (xy (v_heap V (v2 e))) (xy (v_heap V (v1 e))))"

subsection \<open>Container primitives\<close>

text \<open>
  Modelled from the spec: the container (a doubly linked list whose elements know their
  position) is not part of the sources. \<open>insert_before p x\<close> is \<open>std::list::insert\<close> at the
  node with address \<open>p\<close>; \<open>advance\<close> is \<open>std::advance(iter, 1)\<close>; \<open>begin_it\<close> is \<open>begin()\<close>;
  \<open>remove_item\<close> is \<open>Container::remove\<close>. A position that is not in the list is an invalid
  iterator.
\<close>

fun insert_before :: "addr \<Rightarrow> addr \<times> 'a \<Rightarrow> (addr \<times> 'a) list \<Rightarrow> (addr \<times> 'a) list option" where
  "insert_before p x [] = None"
| "insert_before p x (y # ys) =
     (if fst y = p then Some (x # y # ys)
      else (case insert_before p x ys of None \<Rightarrow> None | Some zs \<Rightarrow> Some (y # zs)))"

fun advance :: "addr \<Rightarrow> (addr \<times> 'a) list \<Rightarrow> addr option option" where
  "advance p [] = None"
| "advance p (y # ys) =
     (if fst y = p then Some (case ys of [] \<Rightarrow> None | z # _ \<Rightarrow> Some (fst z))
      else advance p ys)"

definition begin_it :: "(addr \<times> 'a) list \<Rightarrow> addr option" where
  "begin_it xs = (case xs of [] \<Rightarrow> None | x # _ \<Rightarrow> Some (fst x))"

definition remove_item :: "addr \<Rightarrow> (addr \<times> 'a) list \<Rightarrow> (addr \<times> 'a) list" where
  "remove_item p xs = filter (\<lambda>x. fst x \<noteq> p) xs"

fun insert_addr_before :: "addr \<Rightarrow> addr \<Rightarrow> addr list \<Rightarrow> addr list option" where
  "insert_addr_before p x [] = None"
| "insert_addr_before p x (y # ys) =
     (if y = p then Some (x # y # ys)
      else (case insert_addr_before p x ys of None \<Rightarrow> None | Some zs \<Rightarrow> Some (y # zs)))"

text \<open>
  Modelled from the spec: \<open>Vertices::insert(pos, xy, w)\<close> allocates a vertex with the given
  coordinates and weight, all flags cleared, and inserts it at the position \<open>pos\<close>.
\<close>

definition Vertices_insert :: "addr \<Rightarrow> Vec2d \<Rightarrow> real \<Rightarrow> Vertices \<Rightarrow> (addr \<times> Vertices) option" where
  "Vertices_insert pos p w V =
     (case insert_addr_before pos (v_next V) (v_items V) of
        None \<Rightarrow> None
      | Some items \<Rightarrow>
          Some (v_next V,
                V\<lparr>v_heap := (v_heap V)(v_next V :=
                     \<lparr>xy = p, weight = w, is_fixed = False, on_boundary = False, on_front = False\<rparr>),
                  v_items := items,
                  v_next := Suc (v_next V)\<rparr>))"

definition set_is_fixed :: "addr \<Rightarrow> bool \<Rightarrow> Vertices \<Rightarrow> Vertices" where
  "set_is_fixed a b V = V\<lparr>v_heap := (v_heap V)(a := (v_heap V a)\<lparr>is_fixed := b\<rparr>)\<rparr>"

definition set_on_boundary :: "addr \<Rightarrow> bool \<Rightarrow> Vertices \<Rightarrow> Vertices" where
  "set_on_boundary a b V = V\<lparr>v_heap := (v_heap V)(a := (v_heap V a)\<lparr>on_boundary := b\<rparr>)\<rparr>"

definition set_on_front :: "addr \<Rightarrow> bool \<Rightarrow> Vertices \<Rightarrow> Vertices" where
  "set_on_front a b V = V\<lparr>v_heap := (v_heap V)(a := (v_heap V a)\<lparr>on_front := b\<rparr>)\<rparr>"

subsection \<open>The hook for new topology\<close>

text \<open>
  \<open>Front::mark_objects(v1, v2, e)\<close>: both vertices get \<open>on_front(true)\<close>; the edge \<open>e\<close> is
  not used.
\<close>

definition mark_objects :: "addr \<Rightarrow> addr \<Rightarrow> addr \<Rightarrow> Front \<times> Vertices \<Rightarrow> Front \<times> Vertices" where
  "mark_objects a b e FV = (fst FV, set_on_front b True (set_on_front a True (snd FV)))"

text \<open>
  Modelled from the spec: \<open>EdgeList::add_edge\<close> and \<open>EdgeList::insert_edge\<close> are not part of
  the sources. Each allocates the edge \<open>(v1, v2, marker)\<close>, puts it at the end of the
  container, respectively at the position \<open>pos\<close>, invokes the hook \<open>mark_objects\<close> for the
  new edge and its vertices, and returns the edge.
\<close>

definition add_edge :: "addr \<Rightarrow> addr \<Rightarrow> int \<Rightarrow> Front \<times> Vertices \<Rightarrow> addr \<times> Front \<times> Vertices" where
  "add_edge a b m FV =
     (let F = fst FV; ea = e_next F;
          F' = F\<lparr>edges := edges F @ [(ea, \<lparr>v1 = a, v2 = b, marker = m\<rparr>)], e_next := Suc ea\<rparr>
      in (ea, mark_objects a b ea (F', snd FV)))"

definition insert_edge ::
  "addr \<Rightarrow> addr \<Rightarrow> addr \<Rightarrow> int \<Rightarrow> Front \<times> Vertices \<Rightarrow> (addr \<times> Front \<times> Vertices) option" where
  "insert_edge pos a b m FV =
     (let F = fst FV; ea = e_next F in
      case insert_before pos (ea, \<lparr>v1 = a, v2 = b, marker = m\<rparr>) (edges F) of
        None \<Rightarrow> None
      | Some es \<Rightarrow> Some (ea, mark_objects a b ea (F\<lparr>edges := es, e_next := Suc ea\<rparr>, snd FV)))"

text \<open>
  Modelled from the spec: \<open>EdgeList::compute_area\<close>, the signed area enclosed by the edges.
\<close>

definition compute_area :: "Vertices \<Rightarrow> Front \<Rightarrow> Front" where
  "compute_area V F =
     F\<lparr>area := sum_list (map (\<lambda>x. cross (xy (v_heap V (v1 (snd x)))) (xy (v_heap V (v2 (snd x)))) / 2)
                              (edges F))\<rparr>"

subsection \<open>Base pointer\<close>

text \<open>\<open>Front::set_base_first\<close>.\<close>

definition set_base_first :: "Front \<Rightarrow> Front" where
  "set_base_first F =
     (if length (edges F) < 1 then F
      else F\<lparr>base := Some (fst (hd (edges F)))\<rparr>)"

text \<open>
  \<open>Front::set_base_next\<close>. On a front with edges the method dereferences \<open>base\<close> and
  advances the iterator \<open>base->pos()\<close>: a null pointer, or one to an edge that is no
  longer in the container, has no defined result.
\<close>

definition set_base_next :: "Front \<Rightarrow> Front option" where
  "set_base_next F =
     (if length (edges F) < 1 then Some F
      else (case base F of
              None \<Rightarrow> None
            | Some b \<Rightarrow>
                (case advance b (edges F) of
                   None \<Rightarrow> None
                 | Some iter \<Rightarrow>
                     Some (F\<lparr>base := (case iter of None \<Rightarrow> begin_it (edges F) | Some a \<Rightarrow> Some a)\<rparr>))))"

subsection \<open>Sub-vertex placement\<close>

text \<open>
  The \<open>while (true)\<close> loop of \<open>Front::create_sub_vertex_coords\<close>: predictor, corrector,
  \<open>push_back\<close>, and the exit once \<open>s > s_end\<close>. The loop returns the vector \<open>xy_new\<close> and
  \<open>s_last\<close>. It need not stop (the size function may vanish), so it is a partial function:
  \<open>None\<close> is the loop that runs forever.
\<close>

partial_function (option) march ::
  "(Vec2d \<Rightarrow> real) \<Rightarrow> Vec2d \<Rightarrow> Vec2d \<Rightarrow> real \<Rightarrow> real \<Rightarrow> Vec2d list \<Rightarrow> Vec2d
     \<Rightarrow> (Vec2d list \<times> real) option" where
  "march sf tang xy_a len s_end xy_new p =
     (let rho = sf p;
          xy_p = vadd p (smul rho tang);
          rho_p = sf xy_p;
          dxy_c = smul (0.5 * (rho + rho_p)) tang;
          xy_c = vadd p dxy_c;
          l = vlength (vsub xy_c xy_a);
          s = l / len
      in if s > s_end then Some (xy_new @ [xy_c], s)
         else march sf tang xy_a len s_end (xy_new @ [xy_c]) xy_c)"

text \<open>
  The choice of the marching direction and the call of the loop (lines 210 to 250):
  \<open>v_a\<close>, \<open>v_b\<close> and the tangent follow the flag \<open>dir\<close>.
\<close>

definition marched ::
  "Vertices \<Rightarrow> Edge \<Rightarrow> bool \<Rightarrow> real \<Rightarrow> real \<Rightarrow> Domain \<Rightarrow> (Vec2d list \<times> real) option" where
  "marched V e dir rho_1 rho_2 domain =
     (let v_a = (if dir then v1 e else v2 e);
          tang = (if dir then edge_tangent V e else vneg (edge_tangent V e));
          rho_b = (if dir then rho_2 else rho_1);
          s_end = 1 - 0.5 * rho_b / edge_length V e
      in march (size_function domain) tang (xy (v_heap V v_a)) (edge_length V e) s_end
           [xy (v_heap V v_a)] (xy (v_heap V v_a)))"

text \<open>
  Lines 252 to 274: the last point is set to \<open>v_b\<close>, the cropped distance is distributed
  among the points \<open>1 .. size - 2\<close> by their share of the size function.
\<close>

definition crop :: "Vertices \<Rightarrow> Edge \<Rightarrow> bool \<Rightarrow> Domain \<Rightarrow> Vec2d list \<Rightarrow> real \<Rightarrow> Vec2d list" where
  "crop V e dir domain pts s_last =
     (let v_b = (if dir then v2 e else v1 e);
          tang = (if dir then edge_tangent V e else vneg (edge_tangent V e));
          xy_new = pts[length pts - 1 := xy (v_heap V v_b)];
          d_cr = smul ((1 - s_last) * edge_length V e) tang;
          rho_i = [0] @ map (\<lambda>i. size_function domain (xy_new ! i)) [1 ..< length xy_new - 1] @ [0];
          rho_tot = sum_list rho_i;
          rho_n = map (\<lambda>v. v / rho_tot) rho_i
      in fold (\<lambda>i xs. xs[i := vadd (xs ! i) (smul (rho_n ! i) d_cr)]) [1 ..< length xy_new - 1] xy_new)"

text \<open>
  Lines 277 to 285, compiled unless \<open>NDEBUG\<close> is defined: the distances from the first
  point must increase strictly.
\<close>

fun ascending :: "Vec2d \<Rightarrow> real \<Rightarrow> Vec2d list \<Rightarrow> bool" where
  "ascending p0 s_prev [] = True"
| "ascending p0 s_prev (p # ps) =
     (let s = vlength (vsub p p0) in s > s_prev \<and> ascending p0 s ps)"

definition nodes_ascending :: "Vec2d list \<Rightarrow> bool" where
  "nodes_ascending xy_new = (case xy_new of [] \<Rightarrow> True | p0 # ps \<Rightarrow> ascending p0 0 ps)"

text \<open>
  \<open>Front::create_sub_vertex_coords\<close>. The flag \<open>ndebug\<close> says whether \<open>NDEBUG\<close> is defined.
\<close>

definition create_sub_vertex_coords ::
  "bool \<Rightarrow> Vertices \<Rightarrow> Edge \<Rightarrow> bool \<Rightarrow> real \<Rightarrow> real \<Rightarrow> Domain \<Rightarrow> Vec2d list option" where
  "create_sub_vertex_coords ndebug V e dir rho_1 rho_2 domain =
     (case marched V e dir rho_1 rho_2 domain of
        None \<Rightarrow> None
      | Some r \<Rightarrow>
          (let xy_new = crop V e dir domain (fst r) (snd r) in
           if \<not> ndebug \<and> \<not> nodes_ascending xy_new then None
           else Some (if \<not> dir then rev xy_new else xy_new)))"

subsection \<open>Sub-edge materialization\<close>

text \<open>
  The body of the \<open>for\<close> loop of \<open>Front::create_sub_edges\<close> for the index \<open>i\<close>: the new
  vertex \<open>v_n\<close> is inserted at the position of \<open>e.v2()\<close> and fixed, the edge from \<open>v_cur\<close> to
  \<open>v_n\<close> is inserted at the position of \<open>e\<close>, its vertices are put on the boundary, and \<open>v_n\<close>
  is the next \<open>v_cur\<close>. \<open>ae\<close> is the edge \<open>e\<close> with its address.
\<close>

definition sub_edges_body ::
  "addr \<times> Edge \<Rightarrow> Vec2d list \<Rightarrow> nat \<Rightarrow> addr \<Rightarrow> Front \<times> Vertices
     \<Rightarrow> (addr \<times> Front \<times> Vertices) option" where
  "sub_edges_body ae xy_new i v_cur FV =
     (case Vertices_insert (v2 (snd ae)) (xy_new ! i) 1 (snd FV) of
        None \<Rightarrow> None
      | Some (v_n, V1) \<Rightarrow>
          (case insert_edge (fst ae) v_cur v_n (marker (snd ae)) (fst FV, set_is_fixed v_n True V1) of
             None \<Rightarrow> None
           | Some (e_new, F2, V2) \<Rightarrow>
               Some (v_n, F2, set_on_boundary v_n True (set_on_boundary v_cur True V2))))"

text \<open>The loop over the indices \<open>1 .. size - 2\<close>; \<open>v_cur\<close> is threaded through.\<close>

fun sub_edges_loop ::
  "addr \<times> Edge \<Rightarrow> Vec2d list \<Rightarrow> nat list \<Rightarrow> addr \<Rightarrow> Front \<times> Vertices
     \<Rightarrow> (addr \<times> Front \<times> Vertices) option" where
  "sub_edges_loop ae xy_new [] v_cur FV = Some (v_cur, FV)"
| "sub_edges_loop ae xy_new (i # is) v_cur FV =
     (case sub_edges_body ae xy_new i v_cur FV of
        None \<Rightarrow> None
      | Some (v_n, FV1) \<Rightarrow> sub_edges_loop ae xy_new is v_n FV1)"

text \<open>
  \<open>Front::create_sub_edges\<close>. The loop bound \<open>xy_new.size() - 1\<close> is unsigned: on an empty
  vector it wraps and the loop reads past the vector, which has no defined result.
\<close>

definition create_sub_edges ::
  "addr \<times> Edge \<Rightarrow> Vec2d list \<Rightarrow> Front \<times> Vertices \<Rightarrow> (Front \<times> Vertices) option" where
  "create_sub_edges ae xy_new FV =
     (if xy_new = [] then None
      else (case sub_edges_loop ae xy_new [1 ..< length xy_new - 1] (v1 (snd ae)) FV of
              None \<Rightarrow> None
            | Some (v_cur, FV1) \<Rightarrow>
                (case insert_edge (fst ae) v_cur (v2 (snd ae)) (marker (snd ae)) FV1 of
                   None \<Rightarrow> None
                 | Some (e_new, F2, V2) \<Rightarrow>
                     Some (F2, set_on_boundary (v2 (snd ae)) True (set_on_boundary v_cur True V2)))))"

subsection \<open>Refinement\<close>

text \<open>
  The body of the loop over the edges in \<open>Front::refine\<close>, for the edge \<open>e\<close> at address
  \<open>fst ae\<close>: the state is the front, the vertex store and the vector \<open>marked\<close>.
\<close>

definition refine_body ::
  "bool \<Rightarrow> Domain \<Rightarrow> addr \<times> Edge \<Rightarrow> (Front \<times> Vertices) \<times> addr list
     \<Rightarrow> ((Front \<times> Vertices) \<times> addr list) option" where
  "refine_body ndebug domain ae st =
     (let V = snd (fst st); e = snd ae;
          rho_1 = size_function domain (xy (v_heap V (v1 e)));
          rho_2 = size_function domain (xy (v_heap V (v2 e)));
          dir = (rho_1 < rho_2)
      in case create_sub_vertex_coords ndebug V e dir rho_1 rho_2 domain of
           None \<Rightarrow> None
         | Some xy_new \<Rightarrow>
             if length xy_new < 3 then Some st
             else (case create_sub_edges ae xy_new (fst st) of
                     None \<Rightarrow> None
                   | Some FV \<Rightarrow> Some (FV, snd st @ [fst ae])))"

text \<open>
  The range-based \<open>for\<close> loop over \<open>edges_\<close>: the iterator \<open>it\<close> runs from \<open>begin()\<close> to
  \<open>end()\<close> and is advanced in the container as the body has left it. The last argument
  records the edges the loop variable has taken; it is not a variable of the source.
\<close>

partial_function (option) refine_loop ::
  "bool \<Rightarrow> Domain \<Rightarrow> addr option \<Rightarrow> (Front \<times> Vertices) \<times> addr list \<Rightarrow> addr list
     \<Rightarrow> (((Front \<times> Vertices) \<times> addr list) \<times> addr list) option" where
  "refine_loop ndebug domain it st seen =
     (case it of
        None \<Rightarrow> Some (st, seen)
      | Some a \<Rightarrow>
          (case map_of (edges (fst (fst st))) a of
             None \<Rightarrow> None
           | Some e \<Rightarrow>
               (case refine_body ndebug domain (a, e) st of
                  None \<Rightarrow> None
                | Some st' \<Rightarrow>
                    (case advance a (edges (fst (fst st'))) of
                       None \<Rightarrow> None
                     | Some it' \<Rightarrow> refine_loop ndebug domain it' st' (seen @ [a])))))"

text \<open>
  \<open>Front::refine\<close>: the loop, the removal of the marked edges, the area, and the number of
  new edges (the sizes are taken as integers; the conversion to \<open>int\<close> does not overflow
  below \<open>2^31\<close> edges).
\<close>

definition refine :: "bool \<Rightarrow> Domain \<Rightarrow> Front \<times> Vertices \<Rightarrow> (int \<times> Front \<times> Vertices) option" where
  "refine ndebug domain FV =
     (let n_before = int (length (edges (fst FV))) in
      case refine_loop ndebug domain (begin_it (edges (fst FV))) (FV, []) [] of
        None \<Rightarrow> None
      | Some r \<Rightarrow>
          (let F1 = fst (fst (fst r)); V1 = snd (fst (fst r)); marked = snd (fst r);
               F2 = F1\<lparr>edges := fold remove_item marked (edges F1)\<rparr>;
               F3 = compute_area V1 F2
           in Some (int (length (edges F3)) - n_before, F3, V1)))"

subsection \<open>Construction\<close>

text \<open>
  The loop of the constructor over the edges of all boundaries: the start vertex is fixed,
  the edge is added, both vertices are put on the boundary.
\<close>

fun seed_edges :: "Edge list \<Rightarrow> Front \<times> Vertices \<Rightarrow> Front \<times> Vertices" where
  "seed_edges [] FV = FV"
| "seed_edges (e # es) FV =
     (case add_edge (v1 e) (v2 e) (marker e) (fst FV, set_is_fixed (v1 e) True (snd FV)) of
        (e_new, F1, V1) \<Rightarrow>
          seed_edges es (F1, set_on_boundary (v2 e) True (set_on_boundary (v1 e) True V1)))"

text \<open>
  The constructor \<open>Front::Front(domain, vertices)\<close>. \<open>EdgeList::check_orientation\<close> is not
  part of the sources and is a parameter; the \<open>ASSERT\<close> on it stops the construction.
  \<open>e0\<close> is the first address the allocator hands out.
\<close>

definition Front_ctor ::
  "bool \<Rightarrow> (Front \<times> Vertices \<Rightarrow> bool) \<Rightarrow> addr \<Rightarrow> Domain \<Rightarrow> Vertices \<Rightarrow> (Front \<times> Vertices) option" where
  "Front_ctor ndebug check_orientation e0 domain vertices =
     (let FV = seed_edges (concat (boundaries domain))
                 (\<lparr>edges = [], area = 0, base = None, e_next = e0\<rparr>, vertices)
      in if \<not> check_orientation FV then None
         else (case refine ndebug domain FV of None \<Rightarrow> None | Some r \<Rightarrow> Some (snd r)))"

section \<open>Notions used by the properties\<close>

text \<open>\<open>n\<close> successive calls of \<open>set_base_next\<close>.\<close>

fun base_next_n :: "nat \<Rightarrow> Front \<Rightarrow> Front option" where
  "base_next_n 0 F = Some F"
| "base_next_n (Suc n) F =
     (case set_base_next F of None \<Rightarrow> None | Some F' \<Rightarrow> base_next_n n F')"

text \<open>
  The length of one corrected step of the marching loop from the point \<open>p\<close> along \<open>tang\<close>
  (the mean of the size function at \<open>p\<close> and at the predicted point), and the sequences of
  points in which every point is one such step along \<open>tang\<close> after its predecessor.
\<close>

definition step_length :: "(Vec2d \<Rightarrow> real) \<Rightarrow> Vec2d \<Rightarrow> Vec2d \<Rightarrow> real" where
  "step_length sf tang p = 0.5 * (sf p + sf (vadd p (smul (sf p) tang)))"

fun marches_along :: "(Vec2d \<Rightarrow> real) \<Rightarrow> Vec2d \<Rightarrow> Vec2d \<Rightarrow> Vec2d list \<Rightarrow> bool" where
  "marches_along sf tang p [] = True"
| "marches_along sf tang p (q # qs) =
     (q = vadd p (smul (step_length sf tang p) tang) \<and> marches_along sf tang q qs)"

text \<open>
  The \<open>k\<close> addresses the allocator hands out from \<open>n\<close> on; the edges that lead from the
  vertex \<open>c\<close> through the vertices \<open>ns\<close>, and the chain of edges from \<open>c\<close> through \<open>ns\<close> to
  the vertex \<open>d\<close>, all with the marker \<open>m\<close>.
\<close>

fun fresh_addrs :: "addr \<Rightarrow> nat \<Rightarrow> addr list" where
  "fresh_addrs n 0 = []"
| "fresh_addrs n (Suc k) = n # fresh_addrs (Suc n) k"

fun links :: "addr \<Rightarrow> addr list \<Rightarrow> int \<Rightarrow> Edge list" where
  "links c [] m = []"
| "links c (n # ns) m = \<lparr>v1 = c, v2 = n, marker = m\<rparr> # links n ns m"

fun sub_chain :: "addr \<Rightarrow> addr list \<Rightarrow> addr \<Rightarrow> int \<Rightarrow> Edge list" where
  "sub_chain c [] d m = [\<lparr>v1 = c, v2 = d, marker = m\<rparr>]"
| "sub_chain c (n # ns) d m = \<lparr>v1 = c, v2 = n, marker = m\<rparr> # sub_chain n ns d m"

text \<open>
  The points that \<open>refine\<close> computes for the edge \<open>e\<close> (the call of
  \<open>create_sub_vertex_coords\<close> with the arguments of lines 99 to 109), and the edges that
  need no refinement: the call returns fewer than 3 points.
\<close>

definition placement :: "bool \<Rightarrow> Domain \<Rightarrow> Vertices \<Rightarrow> Edge \<Rightarrow> Vec2d list option" where
  "placement ndebug domain V e =
     create_sub_vertex_coords ndebug V e
       (size_function domain (xy (v_heap V (v1 e))) < size_function domain (xy (v_heap V (v2 e))))
       (size_function domain (xy (v_heap V (v1 e)))) (size_function domain (xy (v_heap V (v2 e))))
       domain"

definition sufficiently_refined :: "bool \<Rightarrow> Domain \<Rightarrow> Vertices \<Rightarrow> Edge \<Rightarrow> bool" where
  "sufficiently_refined ndebug domain V e =
     (case placement ndebug domain V e of None \<Rightarrow> False | Some pts \<Rightarrow> length pts < 3)"

text \<open>
  A well-formed state: the nodes of the edge container have distinct addresses, and the
  edges and their vertices were allocated before (their addresses lie below the next
  addresses the allocators hand out).
\<close>

definition front_wf :: "Front \<times> Vertices \<Rightarrow> bool" where
  "front_wf FV =
     (distinct (map fst (edges (fst FV))) \<and>
      (\<forall>x \<in> set (edges (fst FV)).
         fst x < e_next (fst FV) \<and> v1 (snd x) < v_next (snd FV) \<and> v2 (snd x) < v_next (snd FV)))"

section \<open>Example inputs\<close>

text \<open>
  A rectangle with the corners \<open>(0,0)\<close>, \<open>(4,0)\<close>, \<open>(4,1)\<close>, \<open>(0,1)\<close>, counter-clockwise: the
  vertices at the addresses 0 to 3, the four edges at the addresses 0 to 3.
\<close>

definition vtx :: "Vec2d \<Rightarrow> Vertex" where
  "vtx p = \<lparr>xy = p, weight = 1, is_fixed = False, on_boundary = False, on_front = False\<rparr>"

definition rect_vertices :: Vertices where
  "rect_vertices =
     \<lparr>v_heap = (\<lambda>_. vtx (0, 0))(1 := vtx (4, 0), 2 := vtx (4, 1), 3 := vtx (0, 1)),
      v_items = [0, 1, 2, 3], v_next = 4\<rparr>"

definition rect_edges :: "Edge list" where
  "rect_edges =
     [\<lparr>v1 = 0, v2 = 1, marker = 5\<rparr>, \<lparr>v1 = 1, v2 = 2, marker = 6\<rparr>,
      \<lparr>v1 = 2, v2 = 3, marker = 7\<rparr>, \<lparr>v1 = 3, v2 = 0, marker = 8\<rparr>]"

definition rect_front :: "addr option \<Rightarrow> Front" where
  "rect_front b = \<lparr>edges = zip [0, 1, 2, 3] rect_edges, area = 4, base = b, e_next = 4\<rparr>"

definition empty_front :: Front where
  "empty_front = \<lparr>edges = [], area = 0, base = None, e_next = 0\<rparr>"

text \<open>
  Two domains on the rectangle: one with the constant size function 1, one whose size
  function grows with the first coordinate.
\<close>

definition const_domain :: Domain where
  "const_domain = \<lparr>size_function = (\<lambda>_. 1), boundaries = [rect_edges]\<rparr>"

definition slope_domain :: Domain where
  "slope_domain = \<lparr>size_function = (\<lambda>p. 4 + fst p), boundaries = [rect_edges]\<rparr>"

text \<open>
  The points that the constant size function places on the bottom edge and on the top edge of
  the rectangle, from \<open>v1\<close> to \<open>v2\<close>.
\<close>

definition bottom_points :: "Vec2d list" where
  "bottom_points = [(0, 0), (1, 0), (2, 0), (3, 0), (4, 0)]"

definition top_points :: "Vec2d list" where
  "top_points = [(4, 1), (3, 1), (2, 1), (1, 1), (0, 1)]"

text \<open>
  Two more domains on the rectangle: a size function that grows steeply with the first
  coordinate, and one that is 1 except on the strip \<open>1 \<le> x \<le> 2\<close>, where it is 3 (it has
  the same value at both ends of the bottom edge, and is not symmetric along it).
\<close>

definition steep_domain :: Domain where
  "steep_domain = \<lparr>size_function = (\<lambda>p. 1 + fst p), boundaries = [rect_edges]\<rparr>"

definition bump_domain :: Domain where
  "bump_domain =
     \<lparr>size_function = (\<lambda>p. if 1 \<le> fst p \<and> fst p \<le> 2 then 3 else 1), boundaries = [rect_edges]\<rparr>"

text \<open>An orientation check that accepts every front.\<close>

definition any_orientation :: "Front \<times> Vertices \<Rightarrow> bool" where
  "any_orientation FV = True"

section \<open>The base pointer\<close>

lemma advance_nth:
  "distinct (map fst xs) \<Longrightarrow> i < length xs \<Longrightarrow>
   advance (fst (xs ! i)) xs = Some (if Suc i < length xs then Some (fst (xs ! Suc i)) else None)"
proof (induction xs arbitrary: i)
  case Nil
  then show ?case by simp
next
  case (Cons x xs)
  show ?case
  proof (cases i)
    case 0
    then show ?thesis by (cases xs) simp_all
  next
    case (Suc j)
    with Cons.prems have j: "j < length xs" and d: "distinct (map fst xs)"
      by simp_all
    from j have "xs ! j \<in> set xs" by (rule nth_mem)
    with Cons.prems(1) have ne: "fst x \<noteq> fst (xs ! j)" by auto
    from Cons.IH [OF d j] Suc ne show ?thesis by simp
  qed
qed

lemma set_base_next_nth:
  assumes "distinct (map fst (edges F))" "i < length (edges F)"
    "base F = Some (fst (edges F ! i))"
  shows "set_base_next F = Some (F\<lparr>base := Some (fst (edges F ! (Suc i mod length (edges F))))\<rparr>)"
proof (cases "Suc i < length (edges F)")
  case True
  then have "edges F \<noteq> []" by (cases "edges F") simp_all
  with True assms advance_nth [OF assms(1,2)] show ?thesis
    by (simp add: set_base_next_def)
next
  case False
  with assms(2) have "Suc i = length (edges F)" by simp
  then have m: "Suc i mod length (edges F) = 0" by simp
  from assms(2) have ne: "edges F \<noteq> []" by (cases "edges F") simp_all
  then have "begin_it (edges F) = Some (fst (edges F ! 0))"
    by (cases "edges F") (simp_all add: begin_it_def)
  with False ne assms advance_nth [OF assms(1,2)] m show ?thesis
    by (simp add: set_base_next_def)
qed

lemma base_next_n_nth:
  "distinct (map fst (edges F)) \<Longrightarrow> i < length (edges F) \<Longrightarrow>
   base F = Some (fst (edges F ! i)) \<Longrightarrow>
   base_next_n k F = Some (F\<lparr>base := Some (fst (edges F ! ((i + k) mod length (edges F))))\<rparr>)"
proof (induction k arbitrary: F i)
  case 0
  then show ?case by simp
next
  case (Suc k)
  let ?n = "length (edges F)"
  let ?F = "F\<lparr>base := Some (fst (edges F ! (Suc i mod ?n)))\<rparr>"
  have s: "set_base_next F = Some ?F"
    using Suc.prems by (rule set_base_next_nth)
  from Suc.prems(2) have "0 < ?n" by (cases "edges F") simp_all
  then have lt: "Suc i mod ?n < length (edges ?F)" by simp
  have "base_next_n k ?F =
    Some (?F\<lparr>base := Some (fst (edges ?F ! ((Suc i mod ?n + k) mod length (edges ?F))))\<rparr>)"
    by (rule Suc.IH) (use Suc.prems lt in simp_all)
  moreover have "(Suc i mod ?n + k) mod ?n = (i + Suc k) mod ?n"
    by (simp add: mod_add_left_eq)
  ultimately show ?case using s by simp
qed

text \<open>
  Claim C9. When the base designates the edge at position \<open>i\<close> of a front whose edges have
  distinct addresses, \<open>set_base_next\<close> moves it to the edge at position \<open>i + 1\<close>, and from the
  last position to the first; as many calls as the front has edges bring the front back to
  the state it started in. On an empty front \<open>set_base_next\<close> and \<open>set_base_first\<close> return
  normally and change nothing.
\<close>

theorem set_base_next_cyclic:
  "(distinct (map fst (edges F)) \<and> i < length (edges F) \<and> base F = Some (fst (edges F ! i)) \<longrightarrow>
      set_base_next F = Some (F\<lparr>base := Some (fst (edges F ! (Suc i mod length (edges F))))\<rparr>) \<and>
      base_next_n (length (edges F)) F = Some F) \<and>
   (edges F = [] \<longrightarrow> set_base_next F = Some F \<and> set_base_first F = F)"
proof (intro conjI impI)
  assume a: "distinct (map fst (edges F)) \<and> i < length (edges F) \<and> base F = Some (fst (edges F ! i))"
  then show "set_base_next F = Some (F\<lparr>base := Some (fst (edges F ! (Suc i mod length (edges F))))\<rparr>)"
    by (simp add: set_base_next_nth)
  from a have "base_next_n (length (edges F)) F =
      Some (F\<lparr>base := Some (fst (edges F ! ((i + length (edges F)) mod length (edges F))))\<rparr>)"
    by (intro base_next_n_nth) simp_all
  with a show "base_next_n (length (edges F)) F = Some F" by simp
next
  assume "edges F = []"
  then show "set_base_next F = Some F" by (simp add: set_base_next_def)
next
  assume "edges F = []"
  then show "set_base_first F = F" by (simp add: set_base_first_def)
qed

theorem set_base_next_cyclic_witness:
  "distinct (map fst (edges (rect_front (Some 3)))) \<and> 3 < length (edges (rect_front (Some 3))) \<and>
   base (rect_front (Some 3)) = Some (fst (edges (rect_front (Some 3)) ! 3)) \<and>
   set_base_next (rect_front (Some 3)) = Some (rect_front (Some 0)) \<and>
   base_next_n 4 (rect_front (Some 3)) = Some (rect_front (Some 3)) \<and>
   edges empty_front = [] \<and>
   set_base_next empty_front = Some empty_front \<and> set_base_first empty_front = empty_front"
proof -
  let ?F = "rect_front (Some 3)"
  have h: "distinct (map fst (edges ?F)) \<and> 3 < length (edges ?F) \<and>
      base ?F = Some (fst (edges ?F ! 3))"
    by (simp add: rect_front_def rect_edges_def)
  have n: "length (edges ?F) = 4"
    by (simp add: rect_front_def rect_edges_def)
  have r: "?F\<lparr>base := Some (fst (edges ?F ! (Suc 3 mod length (edges ?F))))\<rparr> = rect_front (Some 0)"
    by (simp add: rect_front_def rect_edges_def)
  from set_base_next_cyclic [of ?F 3] h
  have "set_base_next ?F = Some (?F\<lparr>base := Some (fst (edges ?F ! (Suc 3 mod length (edges ?F))))\<rparr>) \<and>
      base_next_n (length (edges ?F)) ?F = Some ?F"
    by blast
  then have "set_base_next ?F = Some (rect_front (Some 0)) \<and>
      base_next_n (length (edges ?F)) ?F = Some ?F"
    unfolding r .
  then have a: "set_base_next ?F = Some (rect_front (Some 0)) \<and> base_next_n 4 ?F = Some ?F"
    unfolding n .
  have e: "edges empty_front = []"
    by (simp add: empty_front_def)
  from set_base_next_cyclic [of empty_front 0] e
  have b: "set_base_next empty_front = Some empty_front \<and> set_base_first empty_front = empty_front"
    by blast
  from h a e b show ?thesis by blast
qed

section \<open>Sub-vertex placement\<close>

lemma march_chain:
  assumes "march sf tang a len s_end acc p = Some r"
  shows "\<exists>ys. fst r = acc @ ys \<and> ys \<noteq> [] \<and> marches_along sf tang p ys"
proof (rule march.raw_induct [where P = "\<lambda>sf tang a len s_end acc p r.
    \<exists>ys. fst r = acc @ ys \<and> ys \<noteq> [] \<and> marches_along sf tang p ys", OF _ assms])
  fix f :: "(Vec2d \<Rightarrow> real) \<Rightarrow> Vec2d \<Rightarrow> Vec2d \<Rightarrow> real \<Rightarrow> real \<Rightarrow> Vec2d list \<Rightarrow> Vec2d
      \<Rightarrow> (Vec2d list \<times> real) option"
    and sf :: "Vec2d \<Rightarrow> real" and tang a :: Vec2d and len s_end :: real
    and acc :: "Vec2d list" and p :: Vec2d and r :: "Vec2d list \<times> real"
  assume IH: "\<And>g t b l z xs q y. f g t b l z xs q = Some y \<Longrightarrow>
      \<exists>ys. fst y = xs @ ys \<and> ys \<noteq> [] \<and> marches_along g t q ys"
  let ?q = "vadd p (smul (step_length sf tang p) tang)"
  let ?s = "vlength (vsub ?q a) / len"
  assume eq: "(let rho = sf p; xy_p = vadd p (smul rho tang); rho_p = sf xy_p;
          dxy_c = smul (0.5 * (rho + rho_p)) tang; xy_c = vadd p dxy_c;
          l = vlength (vsub xy_c a); s = l / len
      in if s > s_end then Some (acc @ [xy_c], s)
         else f sf tang a len s_end (acc @ [xy_c]) xy_c) = Some r"
  show "\<exists>ys. fst r = acc @ ys \<and> ys \<noteq> [] \<and> marches_along sf tang p ys"
  proof (cases "s_end < ?s")
    case True
    with eq have "r = (acc @ [?q], ?s)"
      by (simp add: Let_def step_length_def)
    then show ?thesis by simp
  next
    case False
    with eq have "f sf tang a len s_end (acc @ [?q]) ?q = Some r"
      by (simp add: Let_def step_length_def)
    from IH [OF this] obtain ys where
      "fst r = (acc @ [?q]) @ ys" "marches_along sf tang ?q ys"
      by blast
    then have "fst r = acc @ (?q # ys) \<and> ?q # ys \<noteq> [] \<and> marches_along sf tang p (?q # ys)"
      by simp
    then show ?thesis by blast
  qed
qed

lemma marched_chain:
  assumes "marched V e dir rho_1 rho_2 domain = Some r"
  shows "\<exists>ys. fst r = xy (v_heap V (if dir then v1 e else v2 e)) # ys \<and> ys \<noteq> [] \<and>
     marches_along (size_function domain)
       (if dir then edge_tangent V e else vneg (edge_tangent V e))
       (xy (v_heap V (if dir then v1 e else v2 e))) ys"
  using march_chain [OF assms [unfolded marched_def Let_def]] by simp

lemma fold_update_length:
  "length (fold (\<lambda>i xs. xs[i := g i xs]) is xs) = length xs"
  by (induction "is" arbitrary: xs) simp_all

lemma fold_update_other:
  "j \<notin> set is \<Longrightarrow> fold (\<lambda>i xs. xs[i := g i xs]) is xs ! j = xs ! j"
  by (induction "is" arbitrary: xs) simp_all

lemma length_crop: "length (crop V e dir domain pts s_last) = length pts"
  by (simp add: crop_def Let_def fold_update_length)

lemma crop_first:
  "2 \<le> length pts \<Longrightarrow> crop V e dir domain pts s_last ! 0 = pts ! 0"
  by (simp add: crop_def Let_def fold_update_other)

lemma crop_last:
  "2 \<le> length pts \<Longrightarrow>
   crop V e dir domain pts s_last ! (length pts - 1) = xy (v_heap V (if dir then v2 e else v1 e))"
  by (simp add: crop_def Let_def fold_update_other)

lemma create_sub_vertex_coords_ends:
  assumes "create_sub_vertex_coords ndebug V e dir rho_1 rho_2 domain = Some pts"
  shows "2 \<le> length pts \<and> hd pts = xy (v_heap V (v1 e)) \<and> last pts = xy (v_heap V (v2 e))"
proof -
  from assms obtain r where m: "marched V e dir rho_1 rho_2 domain = Some r"
    and p: "pts = (if \<not> dir then rev (crop V e dir domain (fst r) (snd r))
                   else crop V e dir domain (fst r) (snd r))"
    by (auto simp: create_sub_vertex_coords_def Let_def split: option.splits if_splits)
  let ?c = "crop V e dir domain (fst r) (snd r)"
  from marched_chain [OF m] obtain ys where
    r: "fst r = xy (v_heap V (if dir then v1 e else v2 e)) # ys" "ys \<noteq> []"
    by blast
  then have len: "2 \<le> length (fst r)" by (cases ys) simp_all
  then have lc: "2 \<le> length ?c" by (simp add: length_crop)
  then have ne: "?c \<noteq> []" by auto
  have h: "hd ?c = xy (v_heap V (if dir then v1 e else v2 e))"
    using crop_first [OF len, of V e dir domain "snd r"] r ne by (simp add: hd_conv_nth)
  have l: "last ?c = xy (v_heap V (if dir then v2 e else v1 e))"
    using crop_last [OF len, of V e dir domain "snd r"] ne
    by (simp add: last_conv_nth length_crop)
  from p lc h l ne show ?thesis
    by (cases dir) (simp_all add: hd_rev last_rev)
qed

section \<open>Sub-edge materialization\<close>

lemma fresh_addrs_upt: "fresh_addrs n k = [n ..< n + k]"
  by (induction k arbitrary: n) (simp_all add: upt_conv_Cons)

lemma length_fresh_addrs: "length (fresh_addrs n k) = k"
  by (induction k arbitrary: n) simp_all

lemma insert_before_first:
  "p \<notin> fst ` set pre \<Longrightarrow>
   insert_before p x (pre @ (p, y) # suf) = Some (pre @ x # (p, y) # suf)"
  by (induction pre) auto

lemma map_of_split:
  "map_of xs a = Some e \<Longrightarrow> \<exists>pre suf. xs = pre @ (a, e) # suf \<and> a \<notin> fst ` set pre"
proof (induction xs)
  case Nil
  then show ?case by simp
next
  case (Cons x xs)
  show ?case
  proof (cases "fst x = a")
    case True
    with Cons.prems have "x = (a, e)" by (cases x) simp
    then have "x # xs = [] @ (a, e) # xs \<and> a \<notin> fst ` set []" by simp
    then show ?thesis by blast
  next
    case False
    with Cons.prems have "map_of xs a = Some e" by (cases x) simp
    from Cons.IH [OF this] obtain pre suf where
      "xs = pre @ (a, e) # suf" "a \<notin> fst ` set pre" by blast
    with False have "x # xs = (x # pre) @ (a, e) # suf \<and> a \<notin> fst ` set (x # pre)"
      by auto
    then show ?thesis by blast
  qed
qed

lemma sub_edges_body_state:
  assumes "sub_edges_body (a, e) pts i c (F, V) = Some (c', F', V')"
    and "edges F = pre @ (a, e0) # suf" and "a \<notin> fst ` set pre"
  shows "c' = v_next V"
    and "F' = F\<lparr>edges := pre @ (e_next F, \<lparr>v1 = c, v2 = v_next V, marker = marker e\<rparr>) # (a, e0) # suf,
                e_next := Suc (e_next F)\<rparr>"
    and "v_next V' = Suc (v_next V)"
    and "v_heap V' =
      (\<lambda>x. if x = v_next V
           then \<lparr>xy = pts ! i, weight = 1, is_fixed = True, on_boundary = True, on_front = True\<rparr>
           else if x = c then (v_heap V c)\<lparr>on_boundary := True, on_front := True\<rparr>
           else v_heap V x)"
proof -
  from assms(1) obtain items where
    vi: "insert_addr_before (v2 e) (v_next V) (v_items V) = Some items"
    by (auto simp: sub_edges_body_def Vertices_insert_def split: option.splits)
  have ib: "insert_before a (e_next F, \<lparr>v1 = c, v2 = v_next V, marker = marker e\<rparr>) (edges F) =
      Some (pre @ (e_next F, \<lparr>v1 = c, v2 = v_next V, marker = marker e\<rparr>) # (a, e0) # suf)"
    unfolding assms(2) using assms(3) by (rule insert_before_first)
  from assms(1) vi ib have r: "c' = v_next V \<and>
      F' = F\<lparr>edges := pre @ (e_next F, \<lparr>v1 = c, v2 = v_next V, marker = marker e\<rparr>) # (a, e0) # suf,
              e_next := Suc (e_next F)\<rparr> \<and>
      V' = set_on_boundary (v_next V) True (set_on_boundary c True
             (set_on_front (v_next V) True (set_on_front c True
               (set_is_fixed (v_next V) True
                 (V\<lparr>v_heap := (v_heap V)(v_next V :=
                       \<lparr>xy = pts ! i, weight = 1, is_fixed = False, on_boundary = False,
                        on_front = False\<rparr>),
                    v_items := items, v_next := Suc (v_next V)\<rparr>)))))"
    by (auto simp add: sub_edges_body_def Vertices_insert_def insert_edge_def Let_def mark_objects_def)
  from r show "c' = v_next V" by simp
  from r show "F' = F\<lparr>edges := pre @ (e_next F, \<lparr>v1 = c, v2 = v_next V, marker = marker e\<rparr>) # (a, e0) # suf,
                e_next := Suc (e_next F)\<rparr>" by simp
  from r show "v_next V' = Suc (v_next V)"
    by (simp add: set_on_boundary_def set_on_front_def set_is_fixed_def)
  from r show "v_heap V' =
      (\<lambda>x. if x = v_next V
           then \<lparr>xy = pts ! i, weight = 1, is_fixed = True, on_boundary = True, on_front = True\<rparr>
           else if x = c then (v_heap V c)\<lparr>on_boundary := True, on_front := True\<rparr>
           else v_heap V x)"
    by (auto simp: set_on_boundary_def set_on_front_def set_is_fixed_def fun_eq_iff)
qed


lemma sub_edges_body_heap:
  assumes "sub_edges_body (a, e) pts i c (F, V) = Some (c', F', V')"
    and "edges F = pre @ (a, e0) # suf" and "a \<notin> fst ` set pre"
  shows "xy (v_heap V' (v_next V)) = pts ! i"
    and "on_front (v_heap V' (v_next V))"
    and "on_front (v_heap V' c)"
    and "x \<noteq> v_next V \<Longrightarrow> xy (v_heap V' x) = xy (v_heap V x)"
    and "x \<noteq> v_next V \<Longrightarrow> on_front (v_heap V x) \<Longrightarrow> on_front (v_heap V' x)"
  using sub_edges_body_state(4) [OF assms] by simp_all

lemma sub_edges_loop_front:
  assumes "sub_edges_loop (a, e) pts is c (F, V) = Some (c', F', V')"
    and "edges F = pre @ (a, e0) # suf" and "a \<notin> fst ` set pre" and "a < e_next F"
  shows "F' = F\<lparr>edges := pre @ zip (fresh_addrs (e_next F) (length is))
                             (links c (fresh_addrs (v_next V) (length is)) (marker e))
                       @ (a, e0) # suf,
                e_next := e_next F + length is\<rparr> \<and>
         c' = last (c # fresh_addrs (v_next V) (length is)) \<and>
         v_next V' = v_next V + length is"
  using assms
proof (induction "is" arbitrary: c F V pre)
  case Nil
  then show ?case by simp
next
  case (Cons i "is")
  from Cons.prems(1) obtain c1 F1 V1 where
    b: "sub_edges_body (a, e) pts i c (F, V) = Some (c1, F1, V1)"
    and l: "sub_edges_loop (a, e) pts is c1 (F1, V1) = Some (c', F', V')"
    by (auto split: option.splits)
  let ?x = "(e_next F, \<lparr>v1 = c, v2 = v_next V, marker = marker e\<rparr>)"
  note st = sub_edges_body_state [OF b Cons.prems(2,3)]
  have e1: "edges F1 = (pre @ [?x]) @ (a, e0) # suf"
    using st(2) by simp
  have n1: "a \<notin> fst ` set (pre @ [?x])"
    using Cons.prems(3,4) by auto
  have a1: "a < e_next F1"
    using st(2) Cons.prems(4) by simp
  note IH = Cons.IH [OF l e1 n1 a1]
  have f1: "e_next F1 = Suc (e_next F)" using st(2) by simp
  show ?case
    using IH st(1,3) f1 by (simp add: st(2))
qed


lemma set_fresh_addrs: "set (fresh_addrs n k) = {n ..< n + k}"
  by (simp add: fresh_addrs_upt)

lemma sub_edges_loop_heap:
  assumes "sub_edges_loop (a, e) pts is c (F, V) = Some (c', F', V')"
    and "edges F = pre @ (a, e0) # suf" and "a \<notin> fst ` set pre" and "a < e_next F"
  shows "map (\<lambda>x. xy (v_heap V' x)) (fresh_addrs (v_next V) (length is)) = map (\<lambda>i. pts ! i) is \<and>
         (\<forall>x < v_next V. xy (v_heap V' x) = xy (v_heap V x)) \<and>
         (\<forall>x < v_next V. on_front (v_heap V x) \<longrightarrow> on_front (v_heap V' x)) \<and>
         (\<forall>x \<in> set (fresh_addrs (v_next V) (length is)). on_front (v_heap V' x)) \<and>
         (is \<noteq> [] \<longrightarrow> c < v_next V \<longrightarrow> on_front (v_heap V' c))"
  using assms
proof (induction "is" arbitrary: c F V pre)
  case Nil
  then show ?case by simp
next
  case (Cons i "is")
  from Cons.prems(1) obtain c1 F1 V1 where
    b: "sub_edges_body (a, e) pts i c (F, V) = Some (c1, F1, V1)"
    and l: "sub_edges_loop (a, e) pts is c1 (F1, V1) = Some (c', F', V')"
    by (auto split: option.splits)
  let ?x = "(e_next F, \<lparr>v1 = c, v2 = v_next V, marker = marker e\<rparr>)"
  note st = sub_edges_body_state [OF b Cons.prems(2,3)]
  note hp = sub_edges_body_heap [OF b Cons.prems(2,3)]
  have e1: "edges F1 = (pre @ [?x]) @ (a, e0) # suf"
    using st(2) by simp
  have n1: "a \<notin> fst ` set (pre @ [?x])"
    using Cons.prems(3,4) by auto
  have a1: "a < e_next F1"
    using st(2) Cons.prems(4) by simp
  from Cons.IH [OF l e1 n1 a1] st(3)
  have IH1: "map (\<lambda>x. xy (v_heap V' x)) (fresh_addrs (Suc (v_next V)) (length is)) = map (\<lambda>i. pts ! i) is"
    and IH2: "\<And>x. x < Suc (v_next V) \<Longrightarrow> xy (v_heap V' x) = xy (v_heap V1 x)"
    and IH3: "\<And>x. x < Suc (v_next V) \<Longrightarrow> on_front (v_heap V1 x) \<Longrightarrow> on_front (v_heap V' x)"
    and IH4: "\<And>x. x \<in> set (fresh_addrs (Suc (v_next V)) (length is)) \<Longrightarrow> on_front (v_heap V' x)"
    by simp_all
  have g1: "map (\<lambda>x. xy (v_heap V' x)) (fresh_addrs (v_next V) (length (i # is))) = map (\<lambda>i. pts ! i) (i # is)"
    using IH1 IH2 [of "v_next V"] hp(1) by simp
  have g2: "\<forall>x < v_next V. xy (v_heap V' x) = xy (v_heap V x)"
    using IH2 hp(4) by simp
  have g3: "\<forall>x < v_next V. on_front (v_heap V x) \<longrightarrow> on_front (v_heap V' x)"
    using IH3 hp(5) by simp
  have g4: "\<forall>x \<in> set (fresh_addrs (v_next V) (length (i # is))). on_front (v_heap V' x)"
    using IH4 IH3 [of "v_next V"] hp(2) by auto
  have g5: "c < v_next V \<longrightarrow> on_front (v_heap V' c)"
    using IH3 [of c] hp(3) by simp
  from g1 g2 g3 g4 g5 show ?case by blast
qed


lemma length_links: "length (links c ns m) = length ns"
  by (induction ns arbitrary: c) simp_all

lemma sub_chain_links:
  "sub_chain c ns d m = links c ns m @ [\<lparr>v1 = last (c # ns), v2 = d, marker = m\<rparr>]"
  by (induction ns arbitrary: c) simp_all

lemma fresh_addrs_Suc: "fresh_addrs n (Suc k) = fresh_addrs n k @ [n + k]"
  by (induction k arbitrary: n) simp_all

lemma interior_points: "map (\<lambda>i. pts ! i) [1 ..< length pts - 1] = butlast (tl pts)"
  by (rule nth_equalityI) (simp_all add: nth_butlast nth_tl)

lemma zip_sub_chain:
  "length ns = k \<Longrightarrow>
   zip (fresh_addrs m (Suc k)) (sub_chain c ns d mk) =
   zip (fresh_addrs m k) (links c ns mk) @ [(m + k, \<lparr>v1 = last (c # ns), v2 = d, marker = mk\<rparr>)]"
proof (induction ns arbitrary: m k c)
  case Nil
  then show ?case by simp
next
  case (Cons n ns)
  then obtain k' where k: "k = Suc k'" "length ns = k'" by (cases k) auto
  from Cons.IH [OF k(2), of "Suc m" n] k(1) show ?case by simp
qed

lemma create_sub_edges_state:
  assumes "create_sub_edges (a, e) pts (F, V) = Some (F', V')"
    and "edges F = pre @ (a, e0) # suf" and "a \<notin> fst ` set pre" and "a < e_next F"
  shows "F' = F\<lparr>edges := pre @ zip (fresh_addrs (e_next F) (Suc (length pts - 2)))
                             (sub_chain (v1 e) (fresh_addrs (v_next V) (length pts - 2)) (v2 e) (marker e))
                       @ (a, e0) # suf,
                e_next := e_next F + Suc (length pts - 2)\<rparr>"
    and "v_next V' = v_next V + (length pts - 2)"
    and "map (\<lambda>x. xy (v_heap V' x)) (fresh_addrs (v_next V) (length pts - 2)) = butlast (tl pts)"
    and "\<forall>x < v_next V. xy (v_heap V' x) = xy (v_heap V x)"
    and "\<forall>x < v_next V. on_front (v_heap V x) \<longrightarrow> on_front (v_heap V' x)"
    and "\<forall>x \<in> set (fresh_addrs (v_next V) (length pts - 2)). on_front (v_heap V' x)"
    and "on_front (v_heap V' (v2 e))"
    and "v1 e < v_next V \<longrightarrow> on_front (v_heap V' (v1 e))"
proof -
  let ?is = "[1 ..< length pts - 1]"
  let ?k = "length pts - 2"
  have k: "length ?is = ?k" by simp
  from assms(1) obtain c1 F1 V1 ea F2 V2 where
    l: "sub_edges_loop (a, e) pts ?is (v1 e) (F, V) = Some (c1, F1, V1)"
    and i: "insert_edge a c1 (v2 e) (marker e) (F1, V1) = Some (ea, F2, V2)"
    and r: "F' = F2" "V' = set_on_boundary (v2 e) True (set_on_boundary c1 True V2)"
    by (auto simp: create_sub_edges_def split: option.splits if_splits)
  note fr = sub_edges_loop_front [OF l assms(2,3,4), unfolded k]
  note hp = sub_edges_loop_heap [OF l assms(2,3,4), unfolded k]
  let ?pre = "pre @ zip (fresh_addrs (e_next F) ?k) (links (v1 e) (fresh_addrs (v_next V) ?k) (marker e))"
  let ?x = "(e_next F + ?k, \<lparr>v1 = c1, v2 = v2 e, marker = marker e\<rparr>)"
  have e1: "edges F1 = ?pre @ (a, e0) # suf" using fr by simp
  have "fst ` set (zip (fresh_addrs (e_next F) ?k) (links (v1 e) (fresh_addrs (v_next V) ?k) (marker e)))
      \<subseteq> set (fresh_addrs (e_next F) ?k)"
    by (auto dest: set_zip_leftD)
  with assms(3,4) have n1: "a \<notin> fst ` set ?pre"
    by (auto simp: set_fresh_addrs)
  have ib: "insert_before a ?x (edges F1) = Some (?pre @ ?x # (a, e0) # suf)"
    unfolding e1 using n1 by (rule insert_before_first)
  have en: "e_next F1 = e_next F + ?k" using fr by simp
  from i ib en have F2: "F2 = F1\<lparr>edges := ?pre @ ?x # (a, e0) # suf, e_next := Suc (e_next F + ?k)\<rparr>"
    and V2: "V2 = set_on_front (v2 e) True (set_on_front c1 True V1)"
    by (auto simp: insert_edge_def Let_def mark_objects_def)
  from fr have c1: "c1 = last (v1 e # fresh_addrs (v_next V) ?k)" by blast
  have z: "zip (fresh_addrs (e_next F) (Suc ?k))
             (sub_chain (v1 e) (fresh_addrs (v_next V) ?k) (v2 e) (marker e)) =
           zip (fresh_addrs (e_next F) ?k) (links (v1 e) (fresh_addrs (v_next V) ?k) (marker e)) @ [?x]"
    unfolding c1 by (rule zip_sub_chain) (rule length_fresh_addrs)
  show "F' = F\<lparr>edges := pre @ zip (fresh_addrs (e_next F) (Suc ?k))
                             (sub_chain (v1 e) (fresh_addrs (v_next V) ?k) (v2 e) (marker e))
                       @ (a, e0) # suf,
                e_next := e_next F + Suc ?k\<rparr>"
    unfolding z r(1) F2 using fr by simp
  have hV: "\<And>x. xy (v_heap V' x) = xy (v_heap V1 x)"
    "\<And>x. on_front (v_heap V1 x) \<Longrightarrow> on_front (v_heap V' x)"
    "on_front (v_heap V' (v2 e))" "on_front (v_heap V' c1)"
    "v_next V' = v_next V1"
    unfolding r(2) V2 by (simp_all add: set_on_boundary_def set_on_front_def)
  show "v_next V' = v_next V + ?k" using hV(5) fr by simp
  show "map (\<lambda>x. xy (v_heap V' x)) (fresh_addrs (v_next V) ?k) = butlast (tl pts)"
  proof -
    from hp have "map (\<lambda>x. xy (v_heap V1 x)) (fresh_addrs (v_next V) ?k) = map (\<lambda>i. pts ! i) ?is"
      by blast
    then show ?thesis unfolding hV(1) interior_points .
  qed
  show "\<forall>x < v_next V. xy (v_heap V' x) = xy (v_heap V x)"
    using hp by (simp add: hV(1))
  show "\<forall>x < v_next V. on_front (v_heap V x) \<longrightarrow> on_front (v_heap V' x)"
    using hp hV(2) by blast
  show "\<forall>x \<in> set (fresh_addrs (v_next V) ?k). on_front (v_heap V' x)"
    using hp hV(2) by blast
  show "on_front (v_heap V' (v2 e))" by (rule hV(3))
  show "v1 e < v_next V \<longrightarrow> on_front (v_heap V' (v1 e))"
  proof (cases "?is = []")
    case True
    from l have "c1 = v1 e" unfolding True by simp
    with hV(4) show ?thesis by simp
  next
    case False
    with hp hV(2) show ?thesis by blast
  qed
qed

section \<open>Refinement\<close>

lemma refine_body_cases:
  assumes "refine_body ndebug domain (a, e) ((F, V), marked) = Some ((F', V'), marked')"
  shows "(sufficiently_refined ndebug domain V e \<and> F' = F \<and> V' = V \<and> marked' = marked) \<or>
    (\<exists>pts. placement ndebug domain V e = Some pts \<and> 3 \<le> length pts \<and>
       \<not> sufficiently_refined ndebug domain V e \<and>
       create_sub_edges (a, e) pts (F, V) = Some (F', V') \<and> marked' = marked @ [a])"
  using assms
  by (auto simp: refine_body_def placement_def sufficiently_refined_def Let_def
      split: option.splits if_splits)

lemma refine_body_noop:
  "sufficiently_refined ndebug domain (snd (fst st)) e \<Longrightarrow>
   refine_body ndebug domain (a, e) st = Some st"
  by (auto simp: refine_body_def placement_def sufficiently_refined_def Let_def
      split: option.splits)

lemma marched_cong:
  assumes "xy (v_heap V' (v1 e)) = xy (v_heap V (v1 e))"
    and "xy (v_heap V' (v2 e)) = xy (v_heap V (v2 e))"
  shows "marched V' e dir rho_1 rho_2 domain = marched V e dir rho_1 rho_2 domain"
  by (cases dir) (simp_all add: marched_def edge_length_def edge_tangent_def assms)

lemma crop_cong:
  assumes "xy (v_heap V' (v1 e)) = xy (v_heap V (v1 e))"
    and "xy (v_heap V' (v2 e)) = xy (v_heap V (v2 e))"
  shows "crop V' e dir domain pts s = crop V e dir domain pts s"
  by (cases dir) (simp_all add: crop_def edge_length_def edge_tangent_def assms)

lemma placement_cong:
  assumes "xy (v_heap V' (v1 e)) = xy (v_heap V (v1 e))"
    and "xy (v_heap V' (v2 e)) = xy (v_heap V (v2 e))"
  shows "placement ndebug domain V' e = placement ndebug domain V e"
  unfolding placement_def create_sub_vertex_coords_def
  by (simp only: marched_cong [OF assms] crop_cong [OF assms] assms)

lemma distinct_fresh_addrs: "distinct (fresh_addrs n k)"
  by (simp add: fresh_addrs_upt)

lemma length_sub_chain: "length (sub_chain c ns d m) = Suc (length ns)"
  by (induction ns arbitrary: c) simp_all

lemma sub_chain_vertices:
  "x \<in> set (sub_chain c ns d m) \<Longrightarrow>
   v1 x \<in> set (c # ns) \<and> v2 x \<in> set (ns @ [d]) \<and> marker x = m"
  by (induction ns arbitrary: c) auto

lemma advance_first:
  "p \<notin> fst ` set pre \<Longrightarrow> advance p (pre @ (p, y) # suf) = Some (begin_it suf)"
  by (induction pre) (auto simp: begin_it_def)

lemma map_of_first:
  "p \<notin> fst ` set pre \<Longrightarrow> map_of (pre @ (p, y) # suf) p = Some y"
  by (induction pre) auto


lemma front_wf_split:
  assumes "front_wf (F, V)" and "edges F = pre @ (a, e) # suf"
  shows "a \<notin> fst ` set pre" and "a < e_next F" and "v1 e < v_next V" and "v2 e < v_next V"
  using assms by (auto simp: front_wf_def)

lemma create_sub_edges_wf:
  assumes cs: "create_sub_edges (a, e) pts (F, V) = Some (F', V')"
    and wf: "front_wf (F, V)" and ed: "edges F = pre @ (a, e) # suf"
  shows "\<exists>new. edges F' = pre @ new @ (a, e) # suf \<and> (\<forall>x \<in> set new. e_next F \<le> fst x)"
    and "front_wf (F', V')"
    and "e_next F \<le> e_next F'" and "v_next V \<le> v_next V'"
    and "\<forall>x < v_next V. xy (v_heap V' x) = xy (v_heap V x)"
proof -
  note sp = front_wf_split [OF wf ed]
  note st = create_sub_edges_state [OF cs ed sp(1,2)]
  let ?k = "length pts - 2"
  let ?ns = "fresh_addrs (v_next V) ?k"
  let ?new = "zip (fresh_addrs (e_next F) (Suc ?k)) (sub_chain (v1 e) ?ns (v2 e) (marker e))"
  have len: "length (fresh_addrs (e_next F) (Suc ?k)) = length (sub_chain (v1 e) ?ns (v2 e) (marker e))"
    by (simp only: length_fresh_addrs length_sub_chain)
  have mf: "map fst ?new = fresh_addrs (e_next F) (Suc ?k)"
    using len by (rule map_fst_zip)
  have ms: "map snd ?new = sub_chain (v1 e) ?ns (v2 e) (marker e)"
    using len by (rule map_snd_zip)
  have eF': "edges F' = pre @ ?new @ (a, e) # suf" and nF': "e_next F' = e_next F + Suc ?k"
    using st(1) by simp_all
  have fr: "\<And>x. x \<in> set ?new \<Longrightarrow> e_next F \<le> fst x \<and> fst x < e_next F + Suc ?k"
  proof -
    fix x assume "x \<in> set ?new"
    then have "fst x \<in> set (map fst ?new)" by (simp del: map_fst_zip)
    then show "e_next F \<le> fst x \<and> fst x < e_next F + Suc ?k"
      unfolding mf set_fresh_addrs by simp
  qed
  have vs: "\<And>x. x \<in> set ?new \<Longrightarrow> v1 (snd x) < v_next V + ?k \<and> v2 (snd x) < v_next V + ?k"
  proof -
    fix x assume "x \<in> set ?new"
    then have "snd x \<in> set (map snd ?new)" by (simp del: map_snd_zip)
    then have "snd x \<in> set (sub_chain (v1 e) ?ns (v2 e) (marker e))" unfolding ms .
    from sub_chain_vertices [OF this] sp(3,4)
    show "v1 (snd x) < v_next V + ?k \<and> v2 (snd x) < v_next V + ?k"
      by (auto simp: set_fresh_addrs)
  qed
  from eF' fr show "\<exists>new. edges F' = pre @ new @ (a, e) # suf \<and> (\<forall>x \<in> set new. e_next F \<le> fst x)"
    by blast
  show "e_next F \<le> e_next F'" using nF' by simp
  show "v_next V \<le> v_next V'" using st(2) by simp
  show "\<forall>x < v_next V. xy (v_heap V' x) = xy (v_heap V x)" by (rule st(4))
  have old: "\<And>x. x \<in> set (edges F) \<Longrightarrow>
      fst x < e_next F \<and> v1 (snd x) < v_next V \<and> v2 (snd x) < v_next V"
    using wf by (simp add: front_wf_def)
  have d0: "distinct (map fst (edges F))" using wf by (simp add: front_wf_def)
  have disj: "set (fresh_addrs (e_next F) (Suc ?k)) \<inter> fst ` set (edges F) = {}"
    using old by (fastforce simp: set_fresh_addrs)
  have d1: "distinct (map fst (edges F'))"
    using d0 disj distinct_fresh_addrs [of "e_next F" "Suc ?k"]
    unfolding eF' ed by (simp only: map_append distinct_append mf list.map set_append set_map
        list.set distinct.simps) auto
  have all: "\<forall>x \<in> set (edges F').
      fst x < e_next F' \<and> v1 (snd x) < v_next V' \<and> v2 (snd x) < v_next V'"
  proof
    fix x assume "x \<in> set (edges F')"
    then consider "x \<in> set ?new" | "x \<in> set (edges F)"
      unfolding eF' ed by auto
    then show "fst x < e_next F' \<and> v1 (snd x) < v_next V' \<and> v2 (snd x) < v_next V'"
    proof cases
      case 1
      from fr [OF 1] vs [OF 1] show ?thesis using nF' st(2) by simp
    next
      case 2
      from old [OF 2] show ?thesis using nF' st(2) by simp
    qed
  qed
  from d1 all show "front_wf (F', V')" by (simp add: front_wf_def)
qed


lemma refine_body_step:
  assumes b: "refine_body ndebug domain (a, e) ((F, V), marked) = Some ((F', V'), marked')"
    and wf: "front_wf (F, V)" and ed: "edges F = pre @ (a, e) # suf"
  shows "\<exists>new. edges F' = pre @ new @ (a, e) # suf \<and> (\<forall>x \<in> set new. e_next F \<le> fst x)"
    and "front_wf (F', V')"
    and "e_next F \<le> e_next F'" and "v_next V \<le> v_next V'"
    and "\<forall>x < v_next V. xy (v_heap V' x) = xy (v_heap V x)"
    and "marked' = (if sufficiently_refined ndebug domain V e then marked else marked @ [a])"
proof -
  from refine_body_cases [OF b] consider
    (same) "sufficiently_refined ndebug domain V e" "F' = F" "V' = V" "marked' = marked"
  | (sub) pts where "\<not> sufficiently_refined ndebug domain V e"
      "create_sub_edges (a, e) pts (F, V) = Some (F', V')" "marked' = marked @ [a]"
    by blast
  then have "(\<exists>new. edges F' = pre @ new @ (a, e) # suf \<and> (\<forall>x \<in> set new. e_next F \<le> fst x)) \<and>
    front_wf (F', V') \<and> e_next F \<le> e_next F' \<and> v_next V \<le> v_next V' \<and>
    (\<forall>x < v_next V. xy (v_heap V' x) = xy (v_heap V x)) \<and>
    marked' = (if sufficiently_refined ndebug domain V e then marked else marked @ [a])"
  proof cases
    case same
    have "edges F' = pre @ [] @ (a, e) # suf \<and> (\<forall>x \<in> set []. e_next F \<le> fst x)"
      using same ed by simp
    then have "\<exists>new. edges F' = pre @ new @ (a, e) # suf \<and> (\<forall>x \<in> set new. e_next F \<le> fst x)"
      by blast
    with same wf show ?thesis by simp
  next
    case sub
    note w = create_sub_edges_wf [OF sub(2) wf ed]
    from w sub(1,3) show ?thesis by simp
  qed
  then show "\<exists>new. edges F' = pre @ new @ (a, e) # suf \<and> (\<forall>x \<in> set new. e_next F \<le> fst x)"
    and "front_wf (F', V')"
    and "e_next F \<le> e_next F'" and "v_next V \<le> v_next V'"
    and "\<forall>x < v_next V. xy (v_heap V' x) = xy (v_heap V x)"
    and "marked' = (if sufficiently_refined ndebug domain V e then marked else marked @ [a])"
    by blast+
qed

lemma sufficiently_refined_cong:
  assumes "xy (v_heap V' (v1 e)) = xy (v_heap V (v1 e))"
    and "xy (v_heap V' (v2 e)) = xy (v_heap V (v2 e))"
  shows "sufficiently_refined ndebug domain V' e = sufficiently_refined ndebug domain V e"
  by (simp add: sufficiently_refined_def placement_cong [OF assms])

lemma refine_loop_inv:
  assumes "refine_loop ndebug domain (begin_it rest) ((F, V), marked) seen =
      Some (((F', V'), marked'), seen')"
    and "front_wf (F, V)" and "edges F = pre @ rest"
  shows "seen' = seen @ map fst rest \<and>
    filter (\<lambda>x. fst x < e_next F) (edges F') = edges F \<and>
    front_wf (F', V') \<and> e_next F \<le> e_next F' \<and> v_next V \<le> v_next V' \<and>
    (\<forall>x < v_next V. xy (v_heap V' x) = xy (v_heap V x)) \<and>
    marked' = marked @ map fst (filter (\<lambda>x. \<not> sufficiently_refined ndebug domain V (snd x)) rest)"
  using assms
proof (induction rest arbitrary: F V marked seen pre)
  case Nil
  from Nil.prems(1) have r: "F' = F" "V' = V" "marked' = marked" "seen' = seen"
    by (simp_all add: begin_it_def refine_loop.simps)
  from Nil.prems(2) have "filter (\<lambda>x. fst x < e_next F) (edges F) = edges F"
    by (simp add: front_wf_def)
  with r Nil.prems(2) show ?case by simp
next
  case (Cons x rest)
  obtain a e where x: "x = (a, e)" by (cases x)
  have ed: "edges F = pre @ (a, e) # rest" using Cons.prems(3) x by simp
  note sp = front_wf_split [OF Cons.prems(2) ed]
  have m: "map_of (edges F) a = Some e"
    unfolding ed using sp(1) by (rule map_of_first)
  from Cons.prems(1) have "refine_loop ndebug domain (Some a) ((F, V), marked) seen =
      Some (((F', V'), marked'), seen')"
    by (simp add: begin_it_def x)
  then obtain st1 it' where
    body: "refine_body ndebug domain (a, e) ((F, V), marked) = Some st1"
    and adv: "advance a (edges (fst (fst st1))) = Some it'"
    and rec: "refine_loop ndebug domain it' st1 (seen @ [a]) = Some (((F', V'), marked'), seen')"
    by (subst (asm) refine_loop.simps) (auto simp: m split: option.splits)
  obtain F1 V1 marked1 where st1: "st1 = ((F1, V1), marked1)"
    by (cases st1) auto
  note step = refine_body_step [OF body [unfolded st1] Cons.prems(2) ed]
  from step(1) obtain new where
    e1: "edges F1 = pre @ new @ (a, e) # rest" and nw: "\<forall>x \<in> set new. e_next F \<le> fst x"
    by blast
  have wf1: "front_wf (F1, V1)" by (rule step(2))
  have e1': "edges F1 = (pre @ new) @ (a, e) # rest" using e1 by simp
  have "a \<notin> fst ` set (pre @ new)"
    by (rule front_wf_split(1) [OF wf1 e1'])
  then have "advance a (edges F1) = Some (begin_it rest)"
    unfolding e1' by (rule advance_first)
  with adv st1 have it': "it' = begin_it rest" by simp
  have e1'': "edges F1 = (pre @ new @ [(a, e)]) @ rest" using e1 by simp
  from Cons.IH [OF rec [unfolded it' st1] wf1 e1'']
  have IH1: "seen' = (seen @ [a]) @ map fst rest"
    and IH2: "filter (\<lambda>x. fst x < e_next F1) (edges F') = edges F1"
    and IH3: "front_wf (F', V')" and IH4: "e_next F1 \<le> e_next F'" and IH5: "v_next V1 \<le> v_next V'"
    and IH6: "\<forall>x < v_next V1. xy (v_heap V' x) = xy (v_heap V1 x)"
    and IH7: "marked' = marked1 @
       map fst (filter (\<lambda>x. \<not> sufficiently_refined ndebug domain V1 (snd x)) rest)"
    by blast+
  have old: "\<And>y. y \<in> set (edges F) \<Longrightarrow>
      fst y < e_next F \<and> v1 (snd y) < v_next V \<and> v2 (snd y) < v_next V"
    using Cons.prems(2) by (simp add: front_wf_def)
  have g1: "seen' = seen @ map fst (x # rest)" using IH1 x by simp
  have "filter (\<lambda>x. fst x < e_next F) (edges F') =
      filter (\<lambda>x. fst x < e_next F) (filter (\<lambda>x. fst x < e_next F1) (edges F'))"
    using step(3) by (auto intro: filter_cong)
  also have "\<dots> = filter (\<lambda>x. fst x < e_next F) (edges F1)" by (simp only: IH2)
  also have "\<dots> = edges F"
  proof -
    have "filter (\<lambda>x. fst x < e_next F) new = []" using nw by (auto simp: filter_empty_conv)
    moreover have "filter (\<lambda>x. fst x < e_next F) (edges F) = edges F"
      using old by simp
    ultimately show ?thesis unfolding e1 ed by simp
  qed
  finally have g2: "filter (\<lambda>x. fst x < e_next F) (edges F') = edges F" .
  have g4: "e_next F \<le> e_next F'" using step(3) IH4 by simp
  have g5: "v_next V \<le> v_next V'" using step(4) IH5 by simp
  have g6: "\<forall>x < v_next V. xy (v_heap V' x) = xy (v_heap V x)"
    using step(4,5) IH6 by simp
  have "filter (\<lambda>x. \<not> sufficiently_refined ndebug domain V1 (snd x)) rest =
      filter (\<lambda>x. \<not> sufficiently_refined ndebug domain V (snd x)) rest"
  proof (rule filter_cong [OF refl])
    fix y assume "y \<in> set rest"
    then have "y \<in> set (edges F)" unfolding ed by simp
    from old [OF this] step(5)
    have h: "xy (v_heap V1 (v1 (snd y))) = xy (v_heap V (v1 (snd y)))"
      "xy (v_heap V1 (v2 (snd y))) = xy (v_heap V (v2 (snd y)))"
      by simp_all
    show "(\<not> sufficiently_refined ndebug domain V1 (snd y)) =
        (\<not> sufficiently_refined ndebug domain V (snd y))"
      by (rule arg_cong [where f = Not]) (rule sufficiently_refined_cong [OF h])
  qed
  with IH7 step(6) have g7: "marked' = marked @
      map fst (filter (\<lambda>x. \<not> sufficiently_refined ndebug domain V (snd x)) (x # rest))"
    by (simp add: x)
  from g1 g2 IH3 g4 g5 g6 g7 show ?case by blast
qed

section \<open>Evaluation on the examples\<close>

lemma vlength_x: "vlength (x, 0) = \<bar>x\<bar>"
  by (simp add: vlength_def)

lemma vlength_y: "vlength (0, y) = \<bar>y\<bar>"
  by (simp add: vlength_def)

lemmas geom_eval = vadd_def vsub_def smul_def vneg_def vlength_x vlength_y edge_length_def
  edge_tangent_def

lemmas rect_eval = rect_vertices_def rect_edges_def rect_front_def vtx_def const_domain_def
  slope_domain_def

lemmas placement_eval = placement_def create_sub_vertex_coords_def marched_def crop_def
  march.simps Let_def upt_conv_Cons nodes_ascending_def

lemmas sub_edges_eval = create_sub_edges_def sub_edges_body_def Vertices_insert_def
  insert_edge_def mark_objects_def set_on_front_def set_on_boundary_def set_is_fixed_def

section \<open>Endpoints, markers and the hook\<close>

lemma split_first:
  "a \<notin> fst ` set pre \<Longrightarrow>
   takeWhile (\<lambda>x. fst x \<noteq> a) (pre @ (a, e) # suf) = pre \<and>
   dropWhile (\<lambda>x. fst x \<noteq> a) (pre @ (a, e) # suf) = (a, e) # suf"
  by (induction pre) auto

lemma create_sub_edges_at:
  assumes cs: "create_sub_edges (a, e) pts (F, V) = Some (F', V')"
    and wf: "front_wf (F, V)" and m: "map_of (edges F) a = Some e"
  shows "edges F' = takeWhile (\<lambda>x. fst x \<noteq> a) (edges F) @
      zip (fresh_addrs (e_next F) (Suc (length pts - 2)))
          (sub_chain (v1 e) (fresh_addrs (v_next V) (length pts - 2)) (v2 e) (marker e)) @
      dropWhile (\<lambda>x. fst x \<noteq> a) (edges F)"
    and "map (\<lambda>x. xy (v_heap V' x)) (fresh_addrs (v_next V) (length pts - 2)) = butlast (tl pts)"
    and "xy (v_heap V' (v1 e)) = xy (v_heap V (v1 e))"
    and "xy (v_heap V' (v2 e)) = xy (v_heap V (v2 e))"
    and "\<forall>x \<in> set (v1 e # fresh_addrs (v_next V) (length pts - 2) @ [v2 e]). on_front (v_heap V' x)"
proof -
  from map_of_split [OF m] obtain pre suf where
    ed: "edges F = pre @ (a, e) # suf" and np: "a \<notin> fst ` set pre" by blast
  note sp = front_wf_split [OF wf ed]
  note st = create_sub_edges_state [OF cs ed sp(1,2)]
  note tk = split_first [OF np, of e suf]
  show "edges F' = takeWhile (\<lambda>x. fst x \<noteq> a) (edges F) @
      zip (fresh_addrs (e_next F) (Suc (length pts - 2)))
          (sub_chain (v1 e) (fresh_addrs (v_next V) (length pts - 2)) (v2 e) (marker e)) @
      dropWhile (\<lambda>x. fst x \<noteq> a) (edges F)"
    unfolding ed using tk st(1) by simp
  show "map (\<lambda>x. xy (v_heap V' x)) (fresh_addrs (v_next V) (length pts - 2)) = butlast (tl pts)"
    by (rule st(3))
  show "xy (v_heap V' (v1 e)) = xy (v_heap V (v1 e))" using st(4) sp(3) by simp
  show "xy (v_heap V' (v2 e)) = xy (v_heap V (v2 e))" using st(4) sp(4) by simp
  show "\<forall>x \<in> set (v1 e # fresh_addrs (v_next V) (length pts - 2) @ [v2 e]). on_front (v_heap V' x)"
    using st(6,7,8) sp(3) by auto
qed

text \<open>
  Claim C4. The points that \<open>create_sub_vertex_coords\<close> returns begin with the coordinates
  of \<open>v1\<close> and end with the coordinates of \<open>v2\<close>. In a well-formed state
  \<open>create_sub_edges\<close> puts, right before the edge, the chain of edges that leads from the
  vertex \<open>v1\<close> through the new vertices to the vertex \<open>v2\<close>; the new vertices carry the
  interior points, and the coordinates of \<open>v1\<close> and \<open>v2\<close> are as before.
\<close>

theorem endpoints_preserved:
  assumes "create_sub_vertex_coords ndebug V e dir rho_1 rho_2 domain = Some pts"
    and "create_sub_edges (a, e) pts (F, V) = Some (F', V')"
    and "front_wf (F, V)" and "map_of (edges F) a = Some e"
  shows "hd pts = xy (v_heap V (v1 e)) \<and> last pts = xy (v_heap V (v2 e)) \<and>
    edges F' = takeWhile (\<lambda>x. fst x \<noteq> a) (edges F) @
      zip (fresh_addrs (e_next F) (Suc (length pts - 2)))
          (sub_chain (v1 e) (fresh_addrs (v_next V) (length pts - 2)) (v2 e) (marker e)) @
      dropWhile (\<lambda>x. fst x \<noteq> a) (edges F) \<and>
    map (\<lambda>x. xy (v_heap V' x)) (fresh_addrs (v_next V) (length pts - 2)) = butlast (tl pts) \<and>
    xy (v_heap V' (v1 e)) = xy (v_heap V (v1 e)) \<and>
    xy (v_heap V' (v2 e)) = xy (v_heap V (v2 e))"
  using create_sub_vertex_coords_ends [OF assms(1)] create_sub_edges_at(1-4) [OF assms(2-4)]
  by blast

lemma sub_chain_ends:
  "v1 (hd (sub_chain c ns d m)) = c \<and> v2 (last (sub_chain c ns d m)) = d"
  by (induction ns arbitrary: c) (simp_all add: sub_chain_links)

text \<open>
  Claim C8. In a well-formed state every edge that \<open>create_sub_edges\<close> inserts for the
  edge \<open>e\<close> carries the marker of \<open>e\<close>; the first of them starts at \<open>v1\<close> of \<open>e\<close>, the last
  ends at \<open>v2\<close> of \<open>e\<close>.
\<close>

theorem marker_propagation:
  assumes "create_sub_edges (a, e) pts (F, V) = Some (F', V')"
    and "front_wf (F, V)" and "map_of (edges F) a = Some e"
  shows "\<exists>new. edges F' = takeWhile (\<lambda>x. fst x \<noteq> a) (edges F) @ new @
        dropWhile (\<lambda>x. fst x \<noteq> a) (edges F) \<and>
      length new = Suc (length pts - 2) \<and>
      (\<forall>x \<in> set new. marker (snd x) = marker e) \<and>
      v1 (snd (hd new)) = v1 e \<and> v2 (snd (last new)) = v2 e"
proof -
  let ?ns = "fresh_addrs (v_next V) (length pts - 2)"
  let ?ch = "sub_chain (v1 e) ?ns (v2 e) (marker e)"
  let ?new = "zip (fresh_addrs (e_next F) (Suc (length pts - 2))) ?ch"
  have len: "length (fresh_addrs (e_next F) (Suc (length pts - 2))) = length ?ch"
    by (simp only: length_fresh_addrs length_sub_chain)
  have ms: "map snd ?new = ?ch" using len by (rule map_snd_zip)
  have l: "length ?new = Suc (length pts - 2)"
    by (simp add: length_fresh_addrs length_sub_chain del: fresh_addrs.simps)
  have ne: "?new \<noteq> []"
  proof
    assume "?new = []"
    then have "length ?new = 0" by (simp only: list.size)
    with l show False by simp
  qed
  have mk: "\<forall>x \<in> set ?new. marker (snd x) = marker e"
  proof
    fix x assume "x \<in> set ?new"
    then have "snd x \<in> set (map snd ?new)" by (simp del: map_snd_zip fresh_addrs.simps)
    then have "snd x \<in> set ?ch" unfolding ms .
    from sub_chain_vertices [OF this] show "marker (snd x) = marker e" by simp
  qed
  have "snd (hd ?new) = hd (map snd ?new)" using ne by (simp add: hd_map del: fresh_addrs.simps map_snd_zip)
  then have h: "v1 (snd (hd ?new)) = v1 e" unfolding ms by (simp add: sub_chain_ends)
  have "snd (last ?new) = last (map snd ?new)" using ne by (simp add: last_map del: fresh_addrs.simps map_snd_zip)
  then have t: "v2 (snd (last ?new)) = v2 e" unfolding ms by (simp add: sub_chain_ends)
  from create_sub_edges_at(1) [OF assms] l mk h t show ?thesis by blast
qed


lemma rect_front_wf: "front_wf (rect_front b, rect_vertices)"
  by (simp add: front_wf_def rect_eval)

lemma bottom_sub_edges:
  "\<exists>F' V'. create_sub_edges (0, rect_edges ! 0) bottom_points (rect_front b, rect_vertices) =
     Some (F', V')"
  by (simp add: bottom_points_def sub_edges_eval rect_eval upt_conv_Cons)

theorem endpoints_preserved_witness:
  "create_sub_vertex_coords False rect_vertices (rect_edges ! 0) False 1 1 const_domain =
     Some bottom_points \<and>
   front_wf (rect_front None, rect_vertices) \<and>
   map_of (edges (rect_front None)) 0 = Some (rect_edges ! 0) \<and>
   (\<exists>F' V'. create_sub_edges (0, rect_edges ! 0) bottom_points (rect_front None, rect_vertices) =
        Some (F', V') \<and>
      hd bottom_points = (0, 0) \<and> last bottom_points = (4, 0) \<and>
      edges F' =
        [(4, \<lparr>v1 = 0, v2 = 4, marker = 5\<rparr>), (5, \<lparr>v1 = 4, v2 = 5, marker = 5\<rparr>),
         (6, \<lparr>v1 = 5, v2 = 6, marker = 5\<rparr>), (7, \<lparr>v1 = 6, v2 = 1, marker = 5\<rparr>)] @
        edges (rect_front None) \<and>
      map (\<lambda>x. xy (v_heap V' x)) [4, 5, 6] = [(1, 0), (2, 0), (3, 0)] \<and>
      xy (v_heap V' 0) = (0, 0) \<and> xy (v_heap V' 1) = (4, 0))"
proof -
  let ?e0 = "rect_edges ! 0"
  have p: "create_sub_vertex_coords False rect_vertices ?e0 False 1 1 const_domain =
      Some bottom_points"
    by (simp add: bottom_points_def placement_eval geom_eval rect_eval)
  have m: "map_of (edges (rect_front None)) 0 = Some ?e0"
    by (simp add: rect_eval)
  from bottom_sub_edges obtain F' V' where
    cs: "create_sub_edges (0, ?e0) bottom_points (rect_front None, rect_vertices) = Some (F', V')"
    by blast
  have ev: "v1 ?e0 = 0" "v2 ?e0 = 1" "marker ?e0 = 5" "length bottom_points - 2 = 3"
    "e_next (rect_front None) = 4" "v_next rect_vertices = 4"
    "xy (v_heap rect_vertices 0) = (0, 0)" "xy (v_heap rect_vertices 1) = (4, 0)"
    "takeWhile (\<lambda>x. fst x \<noteq> 0) (edges (rect_front None)) = []"
    "dropWhile (\<lambda>x. fst x \<noteq> 0) (edges (rect_front None)) = edges (rect_front None)"
    by (simp_all add: rect_eval bottom_points_def)
  have fa: "fresh_addrs 4 (Suc 3) = [4, 5, 6, 7]" "fresh_addrs 4 3 = [4, 5, 6]"
    by (simp_all add: eval_nat_numeral)
  have sc: "zip [4, 5, 6, 7] (sub_chain 0 [4, 5, 6] 1 5) =
      [(4, \<lparr>v1 = 0, v2 = 4, marker = 5\<rparr>), (5, \<lparr>v1 = 4, v2 = 5, marker = 5\<rparr>),
       (6, \<lparr>v1 = 5, v2 = 6, marker = 5\<rparr>), (7, \<lparr>v1 = 6, v2 = 1, marker = 5\<rparr>)]"
    by simp
  have bp: "butlast (tl bottom_points) = [(1, 0), (2, 0), (3, 0)]"
    by (simp add: bottom_points_def)
  note t = endpoints_preserved [OF p cs rect_front_wf m, unfolded ev fa sc bp]
  from t have "hd bottom_points = (0, 0) \<and> last bottom_points = (4, 0) \<and>
      edges F' =
        [(4, \<lparr>v1 = 0, v2 = 4, marker = 5\<rparr>), (5, \<lparr>v1 = 4, v2 = 5, marker = 5\<rparr>),
         (6, \<lparr>v1 = 5, v2 = 6, marker = 5\<rparr>), (7, \<lparr>v1 = 6, v2 = 1, marker = 5\<rparr>)] @
        edges (rect_front None) \<and>
      map (\<lambda>x. xy (v_heap V' x)) [4, 5, 6] = [(1, 0), (2, 0), (3, 0)] \<and>
      xy (v_heap V' 0) = (0, 0) \<and> xy (v_heap V' 1) = (4, 0)"
    by simp
  with cs have ex: "\<exists>F' V'. create_sub_edges (0, ?e0) bottom_points (rect_front None, rect_vertices) =
        Some (F', V') \<and>
      hd bottom_points = (0, 0) \<and> last bottom_points = (4, 0) \<and>
      edges F' =
        [(4, \<lparr>v1 = 0, v2 = 4, marker = 5\<rparr>), (5, \<lparr>v1 = 4, v2 = 5, marker = 5\<rparr>),
         (6, \<lparr>v1 = 5, v2 = 6, marker = 5\<rparr>), (7, \<lparr>v1 = 6, v2 = 1, marker = 5\<rparr>)] @
        edges (rect_front None) \<and>
      map (\<lambda>x. xy (v_heap V' x)) [4, 5, 6] = [(1, 0), (2, 0), (3, 0)] \<and>
      xy (v_heap V' 0) = (0, 0) \<and> xy (v_heap V' 1) = (4, 0)"
    by (intro exI conjI) (rule cs, simp_all)
  have w: "front_wf (rect_front None, rect_vertices)" by (rule rect_front_wf)
  show ?thesis by (intro conjI) (rule p, rule w, rule m, rule ex)
qed


lemma top_sub_edges:
  "\<exists>F' V'. create_sub_edges (2, rect_edges ! 2) top_points (rect_front b, rect_vertices) =
     Some (F', V')"
  by (simp add: top_points_def sub_edges_eval rect_eval upt_conv_Cons)

theorem marker_propagation_witness:
  "front_wf (rect_front None, rect_vertices) \<and>
   map_of (edges (rect_front None)) 2 = Some (rect_edges ! 2) \<and>
   (\<exists>F' V' new.
      create_sub_edges (2, rect_edges ! 2) top_points (rect_front None, rect_vertices) =
        Some (F', V') \<and>
      edges F' = [(0, rect_edges ! 0), (1, rect_edges ! 1)] @ new @
                 [(2, rect_edges ! 2), (3, rect_edges ! 3)] \<and>
      length new = 4 \<and> list_all (\<lambda>x. marker (snd x) = 7) new \<and>
      v1 (snd (hd new)) = 2 \<and> v2 (snd (last new)) = 3)"
proof -
  let ?e2 = "rect_edges ! 2"
  have w: "front_wf (rect_front None, rect_vertices)" by (rule rect_front_wf)
  have m: "map_of (edges (rect_front None)) 2 = Some ?e2"
    by (simp add: rect_eval)
  from top_sub_edges obtain F' V' where
    cs: "create_sub_edges (2, ?e2) top_points (rect_front None, rect_vertices) = Some (F', V')"
    by blast
  have ev: "v1 ?e2 = 2" "v2 ?e2 = 3" "marker ?e2 = 7" "Suc (length top_points - 2) = 4"
    "takeWhile (\<lambda>x. fst x \<noteq> 2) (edges (rect_front None)) = [(0, rect_edges ! 0), (1, rect_edges ! 1)]"
    "dropWhile (\<lambda>x. fst x \<noteq> 2) (edges (rect_front None)) = [(2, rect_edges ! 2), (3, rect_edges ! 3)]"
    by (simp_all add: rect_eval top_points_def)
  from marker_propagation [OF cs w m, unfolded ev] obtain new where
    n: "edges F' = [(0, rect_edges ! 0), (1, rect_edges ! 1)] @ new @
                 [(2, rect_edges ! 2), (3, rect_edges ! 3)]"
      "length new = 4" "\<forall>x \<in> set new. marker (snd x) = 7"
      "v1 (snd (hd new)) = 2" "v2 (snd (last new)) = 3"
    by blast
  from n(3) have la: "list_all (\<lambda>x. marker (snd x) = 7) new" by (simp add: list_all_iff)
  have ex: "\<exists>F' V' new.
      create_sub_edges (2, ?e2) top_points (rect_front None, rect_vertices) = Some (F', V') \<and>
      edges F' = [(0, rect_edges ! 0), (1, rect_edges ! 1)] @ new @
                 [(2, rect_edges ! 2), (3, rect_edges ! 3)] \<and>
      length new = 4 \<and> list_all (\<lambda>x. marker (snd x) = 7) new \<and>
      v1 (snd (hd new)) = 2 \<and> v2 (snd (last new)) = 3"
    by (intro exI conjI) (rule cs, rule n(1), rule n(2), rule la, rule n(4), rule n(5))
  show ?thesis by (intro conjI) (rule w, rule m, rule ex)
qed


lemma insert_before_mem: "insert_before p x xs = Some ys \<Longrightarrow> x \<in> set ys"
  by (induction xs arbitrary: ys) (auto split: if_splits option.splits)

lemma insert_edge_marks:
  assumes "insert_edge pos a b m (F, V) = Some (ea, F', V')"
  shows "on_front (v_heap V' a) \<and> on_front (v_heap V' b) \<and>
    (ea, \<lparr>v1 = a, v2 = b, marker = m\<rparr>) \<in> set (edges F')"
proof -
  from assms obtain es where
    i: "insert_before pos (e_next F, \<lparr>v1 = a, v2 = b, marker = m\<rparr>) (edges F) = Some es"
    and r: "ea = e_next F" "F' = F\<lparr>edges := es, e_next := Suc (e_next F)\<rparr>"
      "V' = set_on_front b True (set_on_front a True V)"
    by (auto simp: insert_edge_def Let_def mark_objects_def split: option.splits)
  from insert_before_mem [OF i] r show ?thesis
    by (simp add: set_on_front_def)
qed

lemma add_edge_marks:
  assumes "add_edge a b m (F, V) = (ea, F', V')"
  shows "on_front (v_heap V' a) \<and> on_front (v_heap V' b) \<and>
    (ea, \<lparr>v1 = a, v2 = b, marker = m\<rparr>) \<in> set (edges F')"
  using assms by (auto simp: add_edge_def Let_def mark_objects_def set_on_front_def)

text \<open>
  Claim C6, as amended. After \<open>insert_edge\<close> and after \<open>add_edge\<close> both vertices of the new
  edge are on the front and the edge is in the container; after \<open>create_sub_edges\<close> in a
  well-formed state every vertex of the chain is on the front. The hook leaves the front,
  and with it the inserted edge, as it is.
\<close>

theorem hook_marks_vertices:
  "(insert_edge pos a b m (F, V) = Some (ea, F1, V1) \<longrightarrow>
      on_front (v_heap V1 a) \<and> on_front (v_heap V1 b) \<and>
      (ea, \<lparr>v1 = a, v2 = b, marker = m\<rparr>) \<in> set (edges F1)) \<and>
   (add_edge a b m (F, V) = (ea', F2, V2) \<longrightarrow>
      on_front (v_heap V2 a) \<and> on_front (v_heap V2 b) \<and>
      (ea', \<lparr>v1 = a, v2 = b, marker = m\<rparr>) \<in> set (edges F2)) \<and>
   (create_sub_edges (c, e) pts (F, V) = Some (F3, V3) \<and> front_wf (F, V) \<and>
    map_of (edges F) c = Some e \<longrightarrow>
      (\<forall>x \<in> set (v1 e # fresh_addrs (v_next V) (length pts - 2) @ [v2 e]).
         on_front (v_heap V3 x))) \<and>
   fst (mark_objects a b ea FV) = fst FV"
proof (intro conjI impI)
  assume "insert_edge pos a b m (F, V) = Some (ea, F1, V1)"
  from insert_edge_marks [OF this]
  show "on_front (v_heap V1 a)" "on_front (v_heap V1 b)"
    "(ea, \<lparr>v1 = a, v2 = b, marker = m\<rparr>) \<in> set (edges F1)"
    by simp_all
next
  assume "add_edge a b m (F, V) = (ea', F2, V2)"
  from add_edge_marks [OF this]
  show "on_front (v_heap V2 a)" "on_front (v_heap V2 b)"
    "(ea', \<lparr>v1 = a, v2 = b, marker = m\<rparr>) \<in> set (edges F2)"
    by simp_all
next
  assume "create_sub_edges (c, e) pts (F, V) = Some (F3, V3) \<and> front_wf (F, V) \<and>
    map_of (edges F) c = Some e"
  then show "\<forall>x \<in> set (v1 e # fresh_addrs (v_next V) (length pts - 2) @ [v2 e]).
      on_front (v_heap V3 x)"
    using create_sub_edges_at(5) by blast
next
  show "fst (mark_objects a b ea FV) = fst FV" by (simp add: mark_objects_def)
qed

text \<open>
  Claim C6 as stated fails: called for the bottom edge of the rectangle, the hook puts the
  vertex 0 on the front and returns the front it was given, with no edge changed.
\<close>

theorem hook_leaves_edge_unmarked:
  "fst (mark_objects 0 1 0 (rect_front None, rect_vertices)) = rect_front None \<and>
   on_front (v_heap (snd (mark_objects 0 1 0 (rect_front None, rect_vertices))) 0) \<and>
   \<not> on_front (v_heap rect_vertices 0)"
  by (simp add: mark_objects_def set_on_front_def rect_eval)


theorem hook_marks_vertices_witness:
  "(\<exists>ea F1 V1. insert_edge 0 0 1 5 (rect_front None, rect_vertices) = Some (ea, F1, V1) \<and>
      on_front (v_heap V1 0) \<and> on_front (v_heap V1 1) \<and>
      (ea, \<lparr>v1 = 0, v2 = 1, marker = 5\<rparr>) \<in> set (edges F1)) \<and>
   (\<exists>ea F2 V2. add_edge 0 1 5 (rect_front None, rect_vertices) = (ea, F2, V2) \<and>
      on_front (v_heap V2 0) \<and> on_front (v_heap V2 1) \<and>
      (ea, \<lparr>v1 = 0, v2 = 1, marker = 5\<rparr>) \<in> set (edges F2)) \<and>
   front_wf (rect_front None, rect_vertices) \<and>
   map_of (edges (rect_front None)) 0 = Some (rect_edges ! 0) \<and>
   (\<exists>F3 V3. create_sub_edges (0, rect_edges ! 0) bottom_points (rect_front None, rect_vertices) =
        Some (F3, V3) \<and>
      list_all (\<lambda>x. on_front (v_heap V3 x)) [0, 4, 5, 6, 1]) \<and>
   \<not> on_front (v_heap rect_vertices 0) \<and> \<not> on_front (v_heap rect_vertices 1)"
proof -
  let ?F = "rect_front None" and ?V = rect_vertices and ?e0 = "rect_edges ! 0"
  have "\<exists>r. insert_edge 0 0 1 5 (?F, ?V) = Some r"
    by (simp add: insert_edge_def Let_def rect_eval)
  then obtain ea F1 V1 where i: "insert_edge 0 0 1 5 (?F, ?V) = Some (ea, F1, V1)"
    by (metis prod_cases3)
  obtain ea' F2 V2 where ad: "add_edge 0 1 5 (?F, ?V) = (ea', F2, V2)"
    by (metis prod_cases3)
  from bottom_sub_edges obtain F3 V3 where
    cs: "create_sub_edges (0, ?e0) bottom_points (?F, ?V) = Some (F3, V3)"
    by blast
  have w: "front_wf (?F, ?V)" by (rule rect_front_wf)
  have m: "map_of (edges ?F) 0 = Some ?e0" by (simp add: rect_eval)
  note t = hook_marks_vertices [where pos = 0 and a = 0 and b = 1 and m = 5 and F = ?F and V = ?V
      and ea = ea and ?F1.0 = F1 and ?V1.0 = V1 and ea' = ea' and ?F2.0 = F2 and ?V2.0 = V2
      and c = 0 and e = ?e0 and pts = bottom_points and ?F3.0 = F3 and ?V3.0 = V3]
  from t i have g1: "on_front (v_heap V1 0) \<and> on_front (v_heap V1 1) \<and>
      (ea, \<lparr>v1 = 0, v2 = 1, marker = 5\<rparr>) \<in> set (edges F1)"
    by blast
  from t ad have g2: "on_front (v_heap V2 0) \<and> on_front (v_heap V2 1) \<and>
      (ea', \<lparr>v1 = 0, v2 = 1, marker = 5\<rparr>) \<in> set (edges F2)"
    by blast
  have ev: "v1 ?e0 = 0" "v2 ?e0 = 1" "v_next ?V = 4" "length bottom_points - 2 = 3"
    by (simp_all add: rect_eval bottom_points_def)
  have fa: "fresh_addrs 4 3 = [4, 5, 6]" by (simp add: eval_nat_numeral)
  from t cs w m have "\<forall>x \<in> set (v1 ?e0 # fresh_addrs (v_next ?V) (length bottom_points - 2) @ [v2 ?e0]).
      on_front (v_heap V3 x)"
    by blast
  then have g3: "list_all (\<lambda>x. on_front (v_heap V3 x)) [0, 4, 5, 6, 1]"
    unfolding ev fa by (simp add: list_all_iff)
  have n: "\<not> on_front (v_heap rect_vertices 0)" "\<not> on_front (v_heap rect_vertices 1)"
    by (simp_all add: rect_eval)
  have x1: "\<exists>ea F1 V1. insert_edge 0 0 1 5 (?F, ?V) = Some (ea, F1, V1) \<and>
      on_front (v_heap V1 0) \<and> on_front (v_heap V1 1) \<and>
      (ea, \<lparr>v1 = 0, v2 = 1, marker = 5\<rparr>) \<in> set (edges F1)"
    using i g1 by blast
  have x2: "\<exists>ea F2 V2. add_edge 0 1 5 (?F, ?V) = (ea, F2, V2) \<and>
      on_front (v_heap V2 0) \<and> on_front (v_heap V2 1) \<and>
      (ea, \<lparr>v1 = 0, v2 = 1, marker = 5\<rparr>) \<in> set (edges F2)"
    using ad g2 by blast
  have x3: "\<exists>F3 V3. create_sub_edges (0, ?e0) bottom_points (?F, ?V) = Some (F3, V3) \<and>
      list_all (\<lambda>x. on_front (v_heap V3 x)) [0, 4, 5, 6, 1]"
    using cs g3 by blast
  show ?thesis by (intro conjI) (rule x1, rule x2, rule w, rule m, rule x3, rule n(1), rule n(2))
qed

section \<open>The refinement pass\<close>

lemma fold_remove_item:
  "fold remove_item ms xs = filter (\<lambda>x. fst x \<notin> set ms) xs"
proof (induction ms arbitrary: xs)
  case Nil
  then show ?case by simp
next
  case (Cons m ms)
  have "fold remove_item (m # ms) xs = fold remove_item ms (remove_item m xs)" by simp
  also have "\<dots> = filter (\<lambda>x. fst x \<notin> set ms) (filter (\<lambda>x. fst x \<noteq> m) xs)"
    by (simp add: Cons.IH remove_item_def)
  also have "\<dots> = filter (\<lambda>x. fst x \<notin> set (m # ms)) xs"
    by (auto intro: filter_cong)
  finally show ?case .
qed

lemma refine_result:
  assumes "refine ndebug domain (F, V) = Some (n, F2, V2)" and "front_wf (F, V)"
  shows "\<exists>F1 marked seen.
    refine_loop ndebug domain (begin_it (edges F)) ((F, V), []) [] = Some (((F1, V2), marked), seen) \<and>
    seen = map fst (edges F) \<and>
    filter (\<lambda>x. fst x < e_next F) (edges F1) = edges F \<and>
    marked = map fst (filter (\<lambda>x. \<not> sufficiently_refined ndebug domain V (snd x)) (edges F)) \<and>
    edges F2 = fold remove_item marked (edges F1) \<and>
    front_wf (F1, V2) \<and>
    n = int (length (edges F2)) - int (length (edges F)) \<and>
    F2 = compute_area V2 (F1\<lparr>edges := fold remove_item marked (edges F1)\<rparr>)"
proof -
  from assms(1) obtain F1 marked seen where
    l: "refine_loop ndebug domain (begin_it (edges F)) ((F, V), []) [] =
        Some (((F1, V2), marked), seen)"
    and r: "F2 = compute_area V2 (F1\<lparr>edges := fold remove_item marked (edges F1)\<rparr>)"
      "n = int (length (edges F2)) - int (length (edges F))"
    by (auto simp: refine_def Let_def split: option.splits)
  have e: "edges F = [] @ edges F" by simp
  note inv = refine_loop_inv [OF l assms(2) e]
  from r(1) have e2: "edges F2 = fold remove_item marked (edges F1)"
    by (simp add: compute_area_def)
  from l inv e2 r show ?thesis by auto
qed

text \<open>
  Claim C2. A call of \<open>refine\<close> on a well-formed state that returns has run its loop over
  exactly the edges the front had at the start, in their order: the loop variable took
  their addresses and no others. When the loop ends every one of those edges is still in
  the container, in its place; the marked edges are the ones that needed refinement, and
  they are removed from the container the loop has left.
\<close>

theorem refine_snapshot:
  assumes "refine ndebug domain (F, V) = Some (n, F2, V2)" and "front_wf (F, V)"
  shows "\<exists>F1 marked seen.
    refine_loop ndebug domain (begin_it (edges F)) ((F, V), []) [] = Some (((F1, V2), marked), seen) \<and>
    seen = map fst (edges F) \<and>
    filter (\<lambda>x. fst x < e_next F) (edges F1) = edges F \<and>
    marked = map fst (filter (\<lambda>x. \<not> sufficiently_refined ndebug domain V (snd x)) (edges F)) \<and>
    edges F2 = fold remove_item marked (edges F1)"
  using refine_result [OF assms] by blast

lemma refine_loop_noop:
  assumes "distinct (map fst (edges F))" and "edges F = pre @ rest"
    and "\<forall>x \<in> set rest. sufficiently_refined ndebug domain V (snd x)"
  shows "refine_loop ndebug domain (begin_it rest) ((F, V), marked) seen =
     Some (((F, V), marked), seen @ map fst rest)"
  using assms
proof (induction rest arbitrary: pre seen)
  case Nil
  show ?case by (simp add: begin_it_def refine_loop.simps)
next
  case (Cons x rest)
  obtain a e where x: "x = (a, e)" by (cases x)
  have ed: "edges F = pre @ (a, e) # rest" using Cons.prems(2) x by simp
  have np: "a \<notin> fst ` set pre" using Cons.prems(1) unfolding ed by auto
  have m: "map_of (edges F) a = Some e"
    unfolding ed using np by (rule map_of_first)
  have b: "refine_body ndebug domain (a, e) ((F, V), marked) = Some ((F, V), marked)"
    using Cons.prems(3) x by (simp add: refine_body_noop)
  have ad: "advance a (edges F) = Some (begin_it rest)"
    unfolding ed using np by (rule advance_first)
  have e': "edges F = (pre @ [(a, e)]) @ rest" using ed by simp
  have IH: "refine_loop ndebug domain (begin_it rest) ((F, V), marked) (seen @ [a]) =
     Some (((F, V), marked), (seen @ [a]) @ map fst rest)"
    using Cons.prems(3) by (intro Cons.IH [OF Cons.prems(1) e']) simp
  have "refine_loop ndebug domain (Some a) ((F, V), marked) seen =
     Some (((F, V), marked), (seen @ [a]) @ map fst rest)"
    by (subst refine_loop.simps) (simp add: m b ad IH)
  then show ?case by (simp add: begin_it_def x)
qed


lemma compute_area_idem: "compute_area V (compute_area V F) = compute_area V F"
  by (simp add: compute_area_def)

lemma refine_noop:
  assumes "distinct (map fst (edges F))"
    and "\<forall>x \<in> set (edges F). sufficiently_refined ndebug domain V (snd x)"
  shows "refine ndebug domain (F, V) = Some (0, compute_area V F, V)"
proof -
  have e: "edges F = [] @ edges F" by simp
  have l: "refine_loop ndebug domain (begin_it (edges F)) ((F, V), []) [] =
      Some (((F, V), []), [] @ map fst (edges F))"
    using assms(1) e assms(2) by (rule refine_loop_noop)
  have f: "F\<lparr>edges := edges F\<rparr> = F" by simp
  show ?thesis
    by (simp add: refine_def l Let_def f) (simp add: compute_area_def)
qed

text \<open>
  Claim C3. When every edge of the front yields fewer than 3 points, \<open>refine\<close> returns 0 and
  leaves the edges, the base and the vertex store as they are (it recomputes the area). A
  second call of \<open>refine\<close> on the state that a first call has left, when all its edges yield
  fewer than 3 points, returns 0 and that same state.
\<close>

theorem refine_idempotent:
  assumes "\<forall>x \<in> set (edges F). sufficiently_refined ndebug domain V (snd x)"
  shows "(distinct (map fst (edges F)) \<longrightarrow>
      refine ndebug domain (F, V) = Some (0, compute_area V F, V) \<and>
      edges (compute_area V F) = edges F \<and> base (compute_area V F) = base F) \<and>
    (refine ndebug domain (F0, V0) = Some (n, F, V) \<and> front_wf (F0, V0) \<longrightarrow>
      refine ndebug domain (F, V) = Some (0, F, V))"
proof (intro conjI impI)
  assume d: "distinct (map fst (edges F))"
  from d assms show "refine ndebug domain (F, V) = Some (0, compute_area V F, V)"
    by (rule refine_noop)
  show "edges (compute_area V F) = edges F" by (simp add: compute_area_def)
  show "base (compute_area V F) = base F" by (simp add: compute_area_def)
next
  assume a: "refine ndebug domain (F0, V0) = Some (n, F, V) \<and> front_wf (F0, V0)"
  then have r0: "refine ndebug domain (F0, V0) = Some (n, F, V)" and w0: "front_wf (F0, V0)"
    by simp_all
  from refine_result [OF r0 w0] obtain F1 marked where
    e: "edges F = fold remove_item marked (edges F1)" and w1: "front_wf (F1, V)"
    and c: "F = compute_area V (F1\<lparr>edges := fold remove_item marked (edges F1)\<rparr>)"
    by blast
  from w1 have "distinct (map fst (edges F1))" by (simp add: front_wf_def)
  then have d: "distinct (map fst (edges F))"
    unfolding e fold_remove_item by (rule distinct_map_filter)
  have i: "compute_area V F = F" by (subst (1 2) c) (rule compute_area_idem)
  from refine_noop [OF d assms] show "refine ndebug domain (F, V) = Some (0, F, V)"
    unfolding i .
qed

lemma refine_keeps_refined:
  assumes "refine ndebug domain (F, V) = Some (n, F', V')" and "front_wf (F, V)"
    and "x \<in> set (edges F)" and "sufficiently_refined ndebug domain V (snd x)"
  shows "x \<in> set (edges F')"
  using refine_result [OF assms(1,2)]
proof (elim exE conjE)
  fix F1 marked seen
  assume f: "filter (\<lambda>x. fst x < e_next F) (edges F1) = edges F"
    and m: "marked = map fst (filter (\<lambda>x. \<not> sufficiently_refined ndebug domain V (snd x)) (edges F))"
    and e: "edges F' = fold remove_item marked (edges F1)"
  from assms(3) have x1: "x \<in> set (edges F1)"
    unfolding f [symmetric] by simp
  have d: "distinct (map fst (edges F))" using assms(2) by (simp add: front_wf_def)
  have "fst x \<notin> set marked"
  proof
    assume "fst x \<in> set marked"
    then obtain y where y: "y \<in> set (edges F)" "\<not> sufficiently_refined ndebug domain V (snd y)"
      "fst y = fst x"
      unfolding m by auto
    from d y(1) assms(3) y(3) have "y = x"
      by (meson distinct_map inj_onD)
    with y(2) assms(4) show False by simp
  qed
  with x1 show ?thesis unfolding e fold_remove_item by simp
qed

text \<open>
  Claim C7. For an edge that yields fewer than 3 points the body of the loop of \<open>refine\<close>
  returns normally and changes neither the front nor the vertex store nor the marked
  edges; and when \<open>refine\<close> returns on a well-formed state, such an edge of the front is
  still in the front.
\<close>

theorem degenerate_edge_unchanged:
  "(sufficiently_refined ndebug domain V e \<longrightarrow>
      refine_body ndebug domain (a, e) ((F, V), marked) = Some ((F, V), marked)) \<and>
   (refine ndebug domain (F, V) = Some (n, F', V') \<and> front_wf (F, V) \<and>
    (a, e) \<in> set (edges F) \<and> sufficiently_refined ndebug domain V e \<longrightarrow>
      (a, e) \<in> set (edges F'))"
proof (intro conjI impI)
  assume "sufficiently_refined ndebug domain V e"
  then show "refine_body ndebug domain (a, e) ((F, V), marked) = Some ((F, V), marked)"
    by (simp add: refine_body_noop)
next
  assume "refine ndebug domain (F, V) = Some (n, F', V') \<and> front_wf (F, V) \<and>
    (a, e) \<in> set (edges F) \<and> sufficiently_refined ndebug domain V e"
  then show "(a, e) \<in> set (edges F')"
    using refine_keeps_refined [of ndebug domain F V n F' V' "(a, e)"] by simp
qed


lemmas refine_eval = refine_def refine_loop.simps refine_body_def begin_it_def remove_item_def
  compute_area_def cross_def

lemma refine_rect:
  "\<exists>n F V. refine True const_domain (rect_front b, rect_vertices) = Some (n, F, V) \<and>
     list_all (\<lambda>x. sufficiently_refined True const_domain V (snd x)) (edges F)"
  by (simp add: refine_eval sub_edges_eval placement_eval geom_eval rect_eval
      sufficiently_refined_def)

lemma rect_sufficient:
  "\<not> sufficiently_refined True const_domain rect_vertices (rect_edges ! 0)"
  "sufficiently_refined True const_domain rect_vertices (rect_edges ! 1)"
  "\<not> sufficiently_refined True const_domain rect_vertices (rect_edges ! 2)"
  "sufficiently_refined True const_domain rect_vertices (rect_edges ! 3)"
  by (simp_all add: sufficiently_refined_def placement_eval geom_eval rect_eval)

lemma rect_slope_sufficient:
  "list_all (\<lambda>x. sufficiently_refined True slope_domain rect_vertices (snd x)) (edges (rect_front b))"
  by (simp add: sufficiently_refined_def placement_eval geom_eval rect_eval)

theorem refine_snapshot_witness:
  "front_wf (rect_front None, rect_vertices) \<and>
   (\<exists>n F2 V2 F1.
      refine True const_domain (rect_front None, rect_vertices) = Some (n, F2, V2) \<and>
      refine_loop True const_domain (begin_it (edges (rect_front None)))
        ((rect_front None, rect_vertices), []) [] = Some (((F1, V2), [0, 2]), [0, 1, 2, 3]) \<and>
      filter (\<lambda>x. fst x < 4) (edges F1) = edges (rect_front None) \<and>
      edges F2 = fold remove_item [0, 2] (edges F1))"
proof -
  let ?F = "rect_front None" and ?V = rect_vertices
  have w: "front_wf (?F, ?V)" by (rule rect_front_wf)
  from refine_rect obtain n F2 V2 where
    r: "refine True const_domain (?F, ?V) = Some (n, F2, V2)" by blast
  have s: "map fst (edges ?F) = [0, 1, 2, 3]" "e_next ?F = 4"
    by (simp_all add: rect_eval)
  have "filter (\<lambda>x. \<not> sufficiently_refined True const_domain ?V (snd x)) (edges ?F) =
      [(0, rect_edges ! 0), (2, rect_edges ! 2)]"
    using rect_sufficient by (simp add: rect_front_def) (simp add: rect_edges_def)
  then have m: "map fst (filter (\<lambda>x. \<not> sufficiently_refined True const_domain ?V (snd x)) (edges ?F)) =
      [0, 2]" by simp
  from refine_snapshot [OF r w, unfolded s m]
  have "\<exists>F1. refine_loop True const_domain (begin_it (edges ?F)) ((?F, ?V), []) [] =
        Some (((F1, V2), [0, 2]), [0, 1, 2, 3]) \<and>
      filter (\<lambda>x. fst x < 4) (edges F1) = edges ?F \<and>
      edges F2 = fold remove_item [0, 2] (edges F1)"
    by auto
  with r have ex: "\<exists>n F2 V2 F1.
      refine True const_domain (?F, ?V) = Some (n, F2, V2) \<and>
      refine_loop True const_domain (begin_it (edges ?F)) ((?F, ?V), []) [] =
        Some (((F1, V2), [0, 2]), [0, 1, 2, 3]) \<and>
      filter (\<lambda>x. fst x < 4) (edges F1) = edges ?F \<and>
      edges F2 = fold remove_item [0, 2] (edges F1)"
    by blast
  show ?thesis by (intro conjI) (rule w, rule ex)
qed

theorem refine_idempotent_witness:
  "list_all (\<lambda>x. sufficiently_refined True slope_domain rect_vertices (snd x))
     (edges (rect_front None)) \<and>
   distinct (map fst (edges (rect_front None))) \<and>
   refine True slope_domain (rect_front None, rect_vertices) =
     Some (0, compute_area rect_vertices (rect_front None), rect_vertices) \<and>
   edges (compute_area rect_vertices (rect_front None)) = edges (rect_front None) \<and>
   front_wf (rect_front None, rect_vertices) \<and>
   (\<exists>n F V. refine True const_domain (rect_front None, rect_vertices) = Some (n, F, V) \<and>
      list_all (\<lambda>x. sufficiently_refined True const_domain V (snd x)) (edges F) \<and>
      refine True const_domain (F, V) = Some (0, F, V))"
proof -
  let ?F = "rect_front None" and ?V = rect_vertices
  have a1: "list_all (\<lambda>x. sufficiently_refined True slope_domain ?V (snd x)) (edges ?F)"
    by (rule rect_slope_sufficient)
  then have h1: "\<forall>x \<in> set (edges ?F). sufficiently_refined True slope_domain ?V (snd x)"
    by (simp add: list_all_iff)
  have d: "distinct (map fst (edges ?F))" by (simp add: rect_eval)
  from refine_idempotent [OF h1] d
  have g1: "refine True slope_domain (?F, ?V) = Some (0, compute_area ?V ?F, ?V)"
    and g2: "edges (compute_area ?V ?F) = edges ?F"
    by blast+
  have w: "front_wf (?F, ?V)" by (rule rect_front_wf)
  from refine_rect obtain n F V where
    r: "refine True const_domain (?F, ?V) = Some (n, F, V)"
    and a2: "list_all (\<lambda>x. sufficiently_refined True const_domain V (snd x)) (edges F)"
    by blast
  from a2 have h2: "\<forall>x \<in> set (edges F). sufficiently_refined True const_domain V (snd x)"
    by (simp add: list_all_iff)
  from refine_idempotent [OF h2] r w
  have g3: "refine True const_domain (F, V) = Some (0, F, V)" by blast
  have ex: "\<exists>n F V. refine True const_domain (?F, ?V) = Some (n, F, V) \<and>
      list_all (\<lambda>x. sufficiently_refined True const_domain V (snd x)) (edges F) \<and>
      refine True const_domain (F, V) = Some (0, F, V)"
    by (intro exI conjI) (rule r, rule a2, rule g3)
  show ?thesis by (intro conjI) (rule a1, rule d, rule g1, rule g2, rule w, rule ex)
qed

theorem degenerate_edge_unchanged_witness:
  "sufficiently_refined True const_domain rect_vertices (rect_edges ! 1) \<and>
   refine_body True const_domain (1, rect_edges ! 1) ((rect_front None, rect_vertices), []) =
     Some ((rect_front None, rect_vertices), []) \<and>
   front_wf (rect_front None, rect_vertices) \<and>
   (1, rect_edges ! 1) \<in> set (edges (rect_front None)) \<and>
   (\<exists>n F' V'. refine True const_domain (rect_front None, rect_vertices) = Some (n, F', V') \<and>
      (1, rect_edges ! 1) \<in> set (edges F'))"
proof -
  let ?F = "rect_front None" and ?V = rect_vertices and ?e1 = "rect_edges ! 1"
  have s: "sufficiently_refined True const_domain ?V ?e1" by (rule rect_sufficient(2))
  have w: "front_wf (?F, ?V)" by (rule rect_front_wf)
  have i: "(1, ?e1) \<in> set (edges ?F)" by (simp add: rect_eval)
  from refine_rect obtain n F' V' where
    r: "refine True const_domain (?F, ?V) = Some (n, F', V')" by blast
  note t = degenerate_edge_unchanged [where ndebug = True and domain = const_domain and V = ?V
      and e = ?e1 and a = 1 and F = ?F and marked = "[]" and n = n and F' = F' and V' = V']
  from t s have g1: "refine_body True const_domain (1, ?e1) ((?F, ?V), []) = Some ((?F, ?V), [])"
    by blast
  from t r w i s have g2: "(1, ?e1) \<in> set (edges F')" by blast
  have ex: "\<exists>n F' V'. refine True const_domain (?F, ?V) = Some (n, F', V') \<and>
      (1, ?e1) \<in> set (edges F')"
    by (intro exI conjI) (rule r, rule g2)
  show ?thesis by (intro conjI) (rule s, rule g1, rule w, rule i, rule ex)
qed

section \<open>The base pointer under refinement and construction\<close>

lemma insert_edge_base:
  "insert_edge pos a b m FV = Some r \<Longrightarrow> base (fst (snd r)) = base (fst FV)"
  by (auto simp: insert_edge_def Let_def mark_objects_def split: option.splits)

lemma sub_edges_body_base:
  "sub_edges_body ae pts i c FV = Some r \<Longrightarrow> base (fst (snd r)) = base (fst FV)"
  by (auto simp: sub_edges_body_def split: option.splits dest!: insert_edge_base)

lemma sub_edges_loop_base:
  "sub_edges_loop ae pts is c FV = Some r \<Longrightarrow> base (fst (snd r)) = base (fst FV)"
proof (induction "is" arbitrary: c FV)
  case Nil
  then show ?case by auto
next
  case (Cons i "is")
  from Cons.prems obtain c1 FV1 where
    b: "sub_edges_body ae pts i c FV = Some (c1, FV1)"
    and l: "sub_edges_loop ae pts is c1 FV1 = Some r"
    by (auto split: option.splits)
  from Cons.IH [OF l] sub_edges_body_base [OF b] show ?case by simp
qed

lemma create_sub_edges_base:
  assumes "create_sub_edges ae pts FV = Some FV'"
  shows "base (fst FV') = base (fst FV)"
proof -
  from assms obtain c1 FV1 r where
    l: "sub_edges_loop ae pts [1 ..< length pts - 1] (v1 (snd ae)) FV = Some (c1, FV1)"
    and i: "insert_edge (fst ae) c1 (v2 (snd ae)) (marker (snd ae)) FV1 = Some r"
    and f: "fst FV' = fst (snd r)"
    by (auto simp: create_sub_edges_def split: option.splits if_splits)
  from sub_edges_loop_base [OF l] insert_edge_base [OF i] f show ?thesis by simp
qed

lemma refine_body_base:
  assumes "refine_body ndebug domain ae st = Some st'"
  shows "base (fst (fst st')) = base (fst (fst st))"
  using assms
  by (auto simp: refine_body_def Let_def split: option.splits if_splits
      dest: create_sub_edges_base)

lemma refine_loop_base:
  assumes "refine_loop ndebug domain it st seen = Some r"
  shows "base (fst (fst (fst r))) = base (fst (fst st))"
proof (rule refine_loop.raw_induct [where P = "\<lambda>ndebug domain it st seen r.
    base (fst (fst (fst r))) = base (fst (fst st))", OF _ assms])
  fix f :: "bool \<Rightarrow> Domain \<Rightarrow> addr option \<Rightarrow> (Front \<times> Vertices) \<times> addr list \<Rightarrow> addr list
      \<Rightarrow> (((Front \<times> Vertices) \<times> addr list) \<times> addr list) option"
    and nd :: bool and dom :: Domain and it :: "addr option"
    and st :: "(Front \<times> Vertices) \<times> addr list" and seen :: "addr list"
    and r :: "((Front \<times> Vertices) \<times> addr list) \<times> addr list"
  assume IH: "\<And>nd' dom' it' st' seen' r'. f nd' dom' it' st' seen' = Some r' \<Longrightarrow>
      base (fst (fst (fst r'))) = base (fst (fst st'))"
  assume eq: "(case it of
        None \<Rightarrow> Some (st, seen)
      | Some a \<Rightarrow>
          (case map_of (edges (fst (fst st))) a of
             None \<Rightarrow> None
           | Some e \<Rightarrow>
               (case refine_body nd dom (a, e) st of
                  None \<Rightarrow> None
                | Some st' \<Rightarrow>
                    (case advance a (edges (fst (fst st'))) of
                       None \<Rightarrow> None
                     | Some it' \<Rightarrow> f nd dom it' st' (seen @ [a]))))) = Some r"
  show "base (fst (fst (fst r))) = base (fst (fst st))"
  proof (cases it)
    case None
    with eq show ?thesis by auto
  next
    case (Some a)
    with eq obtain e st' it' where
      b: "refine_body nd dom (a, e) st = Some st'"
      and l: "f nd dom it' st' (seen @ [a]) = Some r"
      by (auto split: option.splits)
    from IH [OF l] refine_body_base [OF b] show ?thesis by simp
  qed
qed

lemma refine_base:
  assumes "refine ndebug domain FV = Some r"
  shows "base (fst (snd r)) = base (fst FV)"
proof -
  from assms obtain q where
    l: "refine_loop ndebug domain (begin_it (edges (fst FV))) (FV, []) [] = Some q"
    and r: "base (fst (snd r)) = base (fst (fst (fst q)))"
    by (auto simp: refine_def Let_def compute_area_def split: option.splits)
  from refine_loop_base [OF l] r show ?thesis by simp
qed

lemma seed_edges_base: "base (fst (seed_edges es FV)) = base (fst FV)"
proof (induction es arbitrary: FV)
  case Nil
  show ?case by simp
next
  case (Cons e es)
  show ?case
    by (simp add: Cons.IH add_edge_def Let_def mark_objects_def split: prod.splits)
qed

lemma Front_ctor_base:
  assumes "Front_ctor ndebug chk e0 domain V = Some FV"
  shows "base (fst FV) = None"
proof -
  let ?FV = "seed_edges (concat (boundaries domain))
                 (\<lparr>edges = [], area = 0, base = None, e_next = e0\<rparr>, V)"
  from assms obtain r where r: "refine ndebug domain ?FV = Some r" and f: "FV = snd r"
    by (auto simp: Front_ctor_def Let_def split: option.splits if_splits)
  from refine_base [OF r] f show ?thesis by (simp add: seed_edges_base)
qed

text \<open>
  Claim C1, as amended. \<open>refine\<close> leaves the base pointer as it is; the constructor leaves it
  null; \<open>set_base_first\<close> on a front with edges makes it designate the first edge, an edge
  of the container.
\<close>

theorem base_policy:
  "(refine ndebug domain (F, V) = Some (n, F', V') \<longrightarrow> base F' = base F) \<and>
   (Front_ctor ndebug chk e0 domain V = Some (F1, V1) \<longrightarrow> base F1 = None) \<and>
   (edges F \<noteq> [] \<longrightarrow>
      base (set_base_first F) = Some (fst (hd (edges F))) \<and>
      fst (hd (edges F)) \<in> fst ` set (edges (set_base_first F)))"
proof (intro conjI impI)
  assume "refine ndebug domain (F, V) = Some (n, F', V')"
  from refine_base [OF this] show "base F' = base F" by simp
next
  assume "Front_ctor ndebug chk e0 domain V = Some (F1, V1)"
  from Front_ctor_base [OF this] show "base F1 = None" by simp
next
  assume "edges F \<noteq> []"
  then show "base (set_base_first F) = Some (fst (hd (edges F)))"
    by (cases "edges F") (simp_all add: set_base_first_def)
next
  assume "edges F \<noteq> []"
  then show "fst (hd (edges F)) \<in> fst ` set (edges (set_base_first F))"
    by (cases "edges F") (simp_all add: set_base_first_def)
qed


lemma ctor_rect:
  "map_option (base \<circ> fst) (Front_ctor True any_orientation 0 const_domain rect_vertices) =
     Some None \<and>
   map_option (map fst \<circ> edges \<circ> fst) (Front_ctor True any_orientation 0 const_domain rect_vertices) =
     Some [4, 5, 6, 7, 1, 8, 9, 10, 11, 3]"
  by (simp add: Front_ctor_def any_orientation_def add_edge_def refine_eval sub_edges_eval
      placement_eval geom_eval rect_eval)

text \<open>
  Claim C1 as stated fails. On the rectangle with the constant size function, the base
  designates the bottom edge (address 0) before \<open>refine\<close>; \<open>refine\<close> replaces that edge by
  four edges and removes it, and the base still holds the address 0, which is no longer in
  the container. The constructor on the same input returns a front of ten edges whose base
  is null.
\<close>

theorem base_dangles_after_refine:
  "0 \<in> set (map fst (edges (rect_front (Some 0)))) \<and>
   map_option (base \<circ> fst \<circ> snd) (refine True const_domain (rect_front (Some 0), rect_vertices)) =
     Some (Some 0) \<and>
   map_option (map fst \<circ> edges \<circ> fst \<circ> snd)
       (refine True const_domain (rect_front (Some 0), rect_vertices)) =
     Some [4, 5, 6, 7, 1, 8, 9, 10, 11, 3] \<and>
   map_option (base \<circ> fst) (Front_ctor True any_orientation 0 const_domain rect_vertices) =
     Some None \<and>
   map_option (map fst \<circ> edges \<circ> fst) (Front_ctor True any_orientation 0 const_domain rect_vertices) =
     Some [4, 5, 6, 7, 1, 8, 9, 10, 11, 3]"
proof -
  have a: "0 \<in> set (map fst (edges (rect_front (Some 0))))"
    by (simp add: rect_eval)
  have b: "map_option (base \<circ> fst \<circ> snd)
        (refine True const_domain (rect_front (Some 0), rect_vertices)) = Some (Some 0) \<and>
      map_option (map fst \<circ> edges \<circ> fst \<circ> snd)
        (refine True const_domain (rect_front (Some 0), rect_vertices)) =
      Some [4, 5, 6, 7, 1, 8, 9, 10, 11, 3]"
    by (simp add: refine_eval sub_edges_eval placement_eval geom_eval rect_eval)
  from a b ctor_rect show ?thesis by simp
qed

theorem base_policy_witness:
  "(\<exists>n F' V'. refine True const_domain (rect_front (Some 0), rect_vertices) = Some (n, F', V') \<and>
      base F' = Some 0) \<and>
   (\<exists>F1 V1. Front_ctor True any_orientation 0 const_domain rect_vertices = Some (F1, V1) \<and>
      base F1 = None) \<and>
   edges (rect_front None) \<noteq> [] \<and>
   base (set_base_first (rect_front None)) = Some 0 \<and>
   0 \<in> fst ` set (edges (set_base_first (rect_front None)))"
proof -
  from refine_rect obtain n F' V' where
    r: "refine True const_domain (rect_front (Some 0), rect_vertices) = Some (n, F', V')"
    by blast
  from ctor_rect obtain F1 V1 where
    c: "Front_ctor True any_orientation 0 const_domain rect_vertices = Some (F1, V1)"
    by (cases "Front_ctor True any_orientation 0 const_domain rect_vertices") auto
  have ne: "edges (rect_front None) \<noteq> []" by (simp add: rect_eval)
  have h: "fst (hd (edges (rect_front None))) = 0" by (simp add: rect_eval)
  note t = base_policy [where ndebug = True and domain = const_domain
      and F = "rect_front (Some 0)" and V = rect_vertices and n = n and F' = F' and V' = V'
      and chk = any_orientation and ?e0.0 = 0 and ?F1.0 = F1 and ?V1.0 = V1]
  from t r have g1: "base F' = Some 0" by (simp add: rect_front_def)
  from t c have g2: "base F1 = None" by blast
  from base_policy [where F = "rect_front None"] ne
  have g3: "base (set_base_first (rect_front None)) = Some 0"
    and g4: "0 \<in> fst ` set (edges (set_base_first (rect_front None)))"
    unfolding h by blast+
  have x1: "\<exists>n F' V'. refine True const_domain (rect_front (Some 0), rect_vertices) = Some (n, F', V') \<and>
      base F' = Some 0"
    by (intro exI conjI) (rule r, rule g1)
  have x2: "\<exists>F1 V1. Front_ctor True any_orientation 0 const_domain rect_vertices = Some (F1, V1) \<and>
      base F1 = None"
    by (intro exI conjI) (rule c, rule g2)
  show ?thesis by (intro conjI) (rule x1, rule x2, rule ne, rule g3, rule g4)
qed

section \<open>Marching direction\<close>

lemma refine_body_points:
  assumes "refine_body ndebug domain (a, e) ((F, V), marked) = Some ((F', V'), marked')"
  shows "\<exists>pts s xy_new.
    marched V e
      (size_function domain (xy (v_heap V (v1 e))) < size_function domain (xy (v_heap V (v2 e))))
      (size_function domain (xy (v_heap V (v1 e)))) (size_function domain (xy (v_heap V (v2 e))))
      domain = Some (pts, s) \<and>
    xy_new =
      (if size_function domain (xy (v_heap V (v1 e))) < size_function domain (xy (v_heap V (v2 e)))
       then crop V e True domain pts s else rev (crop V e False domain pts s)) \<and>
    (length xy_new < 3 \<and> F' = F \<and> V' = V \<and> marked' = marked \<or>
     3 \<le> length xy_new \<and> create_sub_edges (a, e) xy_new (F, V) = Some (F', V') \<and>
       marked' = marked @ [a])"
  using assms
  by (auto simp: refine_body_def create_sub_vertex_coords_def Let_def
      split: option.splits if_splits)

text \<open>
  Claim C5. Let the body of the loop of \<open>refine\<close> return for the edge \<open>e\<close>. When the size
  function is smaller at \<open>v1\<close>, the marching loop has run from \<open>v1\<close>: its points start at \<open>v1\<close>
  and every further point is one corrected step along the edge tangent after its
  predecessor; the state the body returns is the one these points give after cropping (the
  state as it was when they are fewer than 3, and else the one \<open>create_sub_edges\<close> makes of
  them, with the edge marked). When the size function is smaller at \<open>v2\<close>, the marching loop
  has run from \<open>v2\<close> along the negated tangent, and the state the body returns is the one that
  those points give, cropped and reversed.
\<close>

theorem marching_direction:
  assumes "refine_body ndebug domain (a, e) ((F, V), marked) = Some ((F', V'), marked')"
  shows "\<exists>pts s.
    (size_function domain (xy (v_heap V (v1 e))) < size_function domain (xy (v_heap V (v2 e))) \<longrightarrow>
       marched V e True
         (size_function domain (xy (v_heap V (v1 e)))) (size_function domain (xy (v_heap V (v2 e))))
         domain = Some (pts, s) \<and>
       hd pts = xy (v_heap V (v1 e)) \<and>
       marches_along (size_function domain) (edge_tangent V e) (xy (v_heap V (v1 e))) (tl pts) \<and>
       (length (crop V e True domain pts s) < 3 \<and> F' = F \<and> V' = V \<and> marked' = marked \<or>
        3 \<le> length (crop V e True domain pts s) \<and>
        create_sub_edges (a, e) (crop V e True domain pts s) (F, V) = Some (F', V') \<and>
        marked' = marked @ [a])) \<and>
    (size_function domain (xy (v_heap V (v2 e))) < size_function domain (xy (v_heap V (v1 e))) \<longrightarrow>
       marched V e False
         (size_function domain (xy (v_heap V (v1 e)))) (size_function domain (xy (v_heap V (v2 e))))
         domain = Some (pts, s) \<and>
       hd pts = xy (v_heap V (v2 e)) \<and>
       marches_along (size_function domain) (vneg (edge_tangent V e)) (xy (v_heap V (v2 e))) (tl pts) \<and>
       (length (rev (crop V e False domain pts s)) < 3 \<and> F' = F \<and> V' = V \<and> marked' = marked \<or>
        3 \<le> length (rev (crop V e False domain pts s)) \<and>
        create_sub_edges (a, e) (rev (crop V e False domain pts s)) (F, V) = Some (F', V') \<and>
        marked' = marked @ [a]))"
proof -
  let ?r1 = "size_function domain (xy (v_heap V (v1 e)))"
  let ?r2 = "size_function domain (xy (v_heap V (v2 e)))"
  from refine_body_points [OF assms] obtain pts s xy_new where
    m: "marched V e (?r1 < ?r2) ?r1 ?r2 domain = Some (pts, s)"
    and x: "xy_new = (if ?r1 < ?r2 then crop V e True domain pts s
                      else rev (crop V e False domain pts s))"
    and b: "length xy_new < 3 \<and> F' = F \<and> V' = V \<and> marked' = marked \<or>
       3 \<le> length xy_new \<and> create_sub_edges (a, e) xy_new (F, V) = Some (F', V') \<and>
       marked' = marked @ [a]"
    by blast
  from marched_chain [OF m] obtain ys where
    ys: "pts = xy (v_heap V (if ?r1 < ?r2 then v1 e else v2 e)) # ys"
      "marches_along (size_function domain)
         (if ?r1 < ?r2 then edge_tangent V e else vneg (edge_tangent V e))
         (xy (v_heap V (if ?r1 < ?r2 then v1 e else v2 e))) ys"
    by auto
  have up: "?r1 < ?r2 \<longrightarrow>
       marched V e True ?r1 ?r2 domain = Some (pts, s) \<and>
       hd pts = xy (v_heap V (v1 e)) \<and>
       marches_along (size_function domain) (edge_tangent V e) (xy (v_heap V (v1 e))) (tl pts) \<and>
       (length (crop V e True domain pts s) < 3 \<and> F' = F \<and> V' = V \<and> marked' = marked \<or>
        3 \<le> length (crop V e True domain pts s) \<and>
        create_sub_edges (a, e) (crop V e True domain pts s) (F, V) = Some (F', V') \<and>
        marked' = marked @ [a])"
  proof
    assume lt: "?r1 < ?r2"
    from m lt have "marched V e True ?r1 ?r2 domain = Some (pts, s)" by simp
    moreover from ys lt have "hd pts = xy (v_heap V (v1 e))"
      "marches_along (size_function domain) (edge_tangent V e) (xy (v_heap V (v1 e))) (tl pts)"
      by simp_all
    moreover from x lt have "xy_new = crop V e True domain pts s" by simp
    ultimately show "marched V e True ?r1 ?r2 domain = Some (pts, s) \<and>
       hd pts = xy (v_heap V (v1 e)) \<and>
       marches_along (size_function domain) (edge_tangent V e) (xy (v_heap V (v1 e))) (tl pts) \<and>
       (length (crop V e True domain pts s) < 3 \<and> F' = F \<and> V' = V \<and> marked' = marked \<or>
        3 \<le> length (crop V e True domain pts s) \<and>
        create_sub_edges (a, e) (crop V e True domain pts s) (F, V) = Some (F', V') \<and>
        marked' = marked @ [a])"
      using b by simp
  qed
  have down: "?r2 < ?r1 \<longrightarrow>
       marched V e False ?r1 ?r2 domain = Some (pts, s) \<and>
       hd pts = xy (v_heap V (v2 e)) \<and>
       marches_along (size_function domain) (vneg (edge_tangent V e)) (xy (v_heap V (v2 e))) (tl pts) \<and>
       (length (rev (crop V e False domain pts s)) < 3 \<and> F' = F \<and> V' = V \<and> marked' = marked \<or>
        3 \<le> length (rev (crop V e False domain pts s)) \<and>
        create_sub_edges (a, e) (rev (crop V e False domain pts s)) (F, V) = Some (F', V') \<and>
        marked' = marked @ [a])"
  proof
    assume gt: "?r2 < ?r1"
    then have nl: "\<not> ?r1 < ?r2" by simp
    from m nl have "marched V e False ?r1 ?r2 domain = Some (pts, s)" by simp
    moreover from ys nl have "hd pts = xy (v_heap V (v2 e))"
      "marches_along (size_function domain) (vneg (edge_tangent V e)) (xy (v_heap V (v2 e))) (tl pts)"
      by simp_all
    moreover from x nl have "xy_new = rev (crop V e False domain pts s)" by simp
    ultimately show "marched V e False ?r1 ?r2 domain = Some (pts, s) \<and>
       hd pts = xy (v_heap V (v2 e)) \<and>
       marches_along (size_function domain) (vneg (edge_tangent V e)) (xy (v_heap V (v2 e))) (tl pts) \<and>
       (length (rev (crop V e False domain pts s)) < 3 \<and> F' = F \<and> V' = V \<and> marked' = marked \<or>
        3 \<le> length (rev (crop V e False domain pts s)) \<and>
        create_sub_edges (a, e) (rev (crop V e False domain pts s)) (F, V) = Some (F', V') \<and>
        marked' = marked @ [a])"
      using b by simp
  qed
  from up down show ?thesis by blast
qed

text \<open>
  Claim C10. Let the body of the loop of \<open>refine\<close> return for an edge at whose endpoints
  the size function has the same value. Then the marching loop has run with the flag
  \<open>False\<close>, from \<open>v2\<close> along the negated tangent, and the state the body returns is the one
  that the marched points give after they are cropped and reversed: the state as it was when
  they are fewer than 3, and else the one \<open>create_sub_edges\<close> makes of the reversed points,
  with the edge marked.
\<close>

theorem equal_density_direction:
  assumes "refine_body ndebug domain (a, e) ((F, V), marked) = Some ((F', V'), marked')"
    and "size_function domain (xy (v_heap V (v1 e))) = size_function domain (xy (v_heap V (v2 e)))"
  shows "\<exists>pts s.
    marched V e False
      (size_function domain (xy (v_heap V (v1 e)))) (size_function domain (xy (v_heap V (v2 e))))
      domain = Some (pts, s) \<and>
    hd pts = xy (v_heap V (v2 e)) \<and>
    marches_along (size_function domain) (vneg (edge_tangent V e)) (xy (v_heap V (v2 e))) (tl pts) \<and>
    (length (rev (crop V e False domain pts s)) < 3 \<and> F' = F \<and> V' = V \<and> marked' = marked \<or>
     3 \<le> length (rev (crop V e False domain pts s)) \<and>
     create_sub_edges (a, e) (rev (crop V e False domain pts s)) (F, V) = Some (F', V') \<and>
     marked' = marked @ [a])"
proof -
  let ?r1 = "size_function domain (xy (v_heap V (v1 e)))"
  let ?r2 = "size_function domain (xy (v_heap V (v2 e)))"
  have nl: "\<not> ?r1 < ?r2" using assms(2) by simp
  from refine_body_points [OF assms(1)] obtain pts s xy_new where
    m: "marched V e (?r1 < ?r2) ?r1 ?r2 domain = Some (pts, s)"
    and x: "xy_new = (if ?r1 < ?r2 then crop V e True domain pts s
                      else rev (crop V e False domain pts s))"
    and b: "length xy_new < 3 \<and> F' = F \<and> V' = V \<and> marked' = marked \<or>
       3 \<le> length xy_new \<and> create_sub_edges (a, e) xy_new (F, V) = Some (F', V') \<and>
       marked' = marked @ [a]"
    by blast
  from m nl have m': "marched V e False ?r1 ?r2 domain = Some (pts, s)" by simp
  from marched_chain [OF m'] obtain ys where
    ys: "pts = xy (v_heap V (v2 e)) # ys"
      "marches_along (size_function domain) (vneg (edge_tangent V e)) (xy (v_heap V (v2 e))) ys"
    by auto
  from x nl have x': "xy_new = rev (crop V e False domain pts s)" by simp
  from ys have "hd pts = xy (v_heap V (v2 e))"
    "marches_along (size_function domain) (vneg (edge_tangent V e)) (xy (v_heap V (v2 e))) (tl pts)"
    by simp_all
  with m' b [unfolded x'] show ?thesis by blast
qed


lemma refine_body_returns:
  "\<exists>F' V' marked'. refine_body True steep_domain (0, rect_edges ! 0)
      ((rect_front None, rect_vertices), []) = Some ((F', V'), marked')"
  "\<exists>F' V' marked'. refine_body True steep_domain (2, rect_edges ! 2)
      ((rect_front None, rect_vertices), []) = Some ((F', V'), marked')"
  "\<exists>F' V' marked'. refine_body True bump_domain (0, rect_edges ! 0)
      ((rect_front None, rect_vertices), []) = Some ((F', V'), marked')"
  by (simp_all add: refine_body_def placement_eval geom_eval rect_eval sub_edges_eval
      steep_domain_def bump_domain_def)

theorem marching_direction_witness:
  "(\<exists>F' V'. refine_body True steep_domain (0, rect_edges ! 0)
        ((rect_front None, rect_vertices), []) = Some ((F', V'), [0]) \<and>
      create_sub_edges (0, rect_edges ! 0) [(0, 0), (1 / 4, 0), (4, 0)]
        (rect_front None, rect_vertices) = Some (F', V')) \<and>
   size_function steep_domain (xy (v_heap rect_vertices (v1 (rect_edges ! 0)))) <
     size_function steep_domain (xy (v_heap rect_vertices (v2 (rect_edges ! 0)))) \<and>
   marched rect_vertices (rect_edges ! 0) True 1 5 steep_domain =
     Some ([(0, 0), (3 / 2, 0), (21 / 4, 0)], 21 / 16) \<and>
   marches_along (size_function steep_domain) (edge_tangent rect_vertices (rect_edges ! 0))
     (0, 0) [(3 / 2, 0), (21 / 4, 0)] \<and>
   crop rect_vertices (rect_edges ! 0) True steep_domain [(0, 0), (3 / 2, 0), (21 / 4, 0)] (21 / 16) =
     [(0, 0), (1 / 4, 0), (4, 0)] \<and>
   (\<exists>F' V'. refine_body True steep_domain (2, rect_edges ! 2)
        ((rect_front None, rect_vertices), []) = Some ((F', V'), [2]) \<and>
      create_sub_edges (2, rect_edges ! 2) [(4, 1), (1 / 4, 1), (0, 1)]
        (rect_front None, rect_vertices) = Some (F', V')) \<and>
   size_function steep_domain (xy (v_heap rect_vertices (v2 (rect_edges ! 2)))) <
     size_function steep_domain (xy (v_heap rect_vertices (v1 (rect_edges ! 2)))) \<and>
   marched rect_vertices (rect_edges ! 2) False 5 1 steep_domain =
     Some ([(0, 1), (3 / 2, 1), (21 / 4, 1)], 21 / 16) \<and>
   marches_along (size_function steep_domain) (vneg (edge_tangent rect_vertices (rect_edges ! 2)))
     (0, 1) [(3 / 2, 1), (21 / 4, 1)] \<and>
   rev (crop rect_vertices (rect_edges ! 2) False steep_domain
          [(0, 1), (3 / 2, 1), (21 / 4, 1)] (21 / 16)) =
     [(4, 1), (1 / 4, 1), (0, 1)]"
proof -
  let ?st = "((rect_front None, rect_vertices), [])"
  let ?sf = "size_function steep_domain"
  let ?e0 = "rect_edges ! 0" and ?e2 = "rect_edges ! 2"
  note ev = placement_eval geom_eval rect_eval steep_domain_def
  \<comment> \<open>the bottom edge: the size function is smaller at \<open>v1\<close>\<close>
  have r0: "?sf (xy (v_heap rect_vertices (v1 ?e0))) = 1" "?sf (xy (v_heap rect_vertices (v2 ?e0))) = 5"
    by (simp_all add: rect_eval steep_domain_def)
  have l0: "?sf (xy (v_heap rect_vertices (v1 ?e0))) < ?sf (xy (v_heap rect_vertices (v2 ?e0)))"
    by (simp add: r0)
  have m0: "marched rect_vertices ?e0 True 1 5 steep_domain =
      Some ([(0, 0), (3 / 2, 0), (21 / 4, 0)], 21 / 16)"
    by (simp add: ev)
  have c0: "crop rect_vertices ?e0 True steep_domain [(0, 0), (3 / 2, 0), (21 / 4, 0)] (21 / 16) =
      [(0, 0), (1 / 4, 0), (4, 0)]"
    by (simp add: ev)
  have x0: "xy (v_heap rect_vertices (v1 ?e0)) = (0, 0)" by (simp add: rect_eval)
  from refine_body_returns(1) obtain F' V' marked' where
    h0: "refine_body True steep_domain (0, ?e0) ?st = Some ((F', V'), marked')" by blast
  have lt: "(1::real) < 5" by simp
  from marching_direction [OF h0, unfolded r0] lt obtain pts s where
    a: "marched rect_vertices ?e0 True 1 5 steep_domain = Some (pts, s)"
    and b: "marches_along ?sf (edge_tangent rect_vertices ?e0)
         (xy (v_heap rect_vertices (v1 ?e0))) (tl pts)"
    and d: "length (crop rect_vertices ?e0 True steep_domain pts s) < 3 \<and> F' = rect_front None \<and>
         V' = rect_vertices \<and> marked' = [] \<or>
       3 \<le> length (crop rect_vertices ?e0 True steep_domain pts s) \<and>
       create_sub_edges (0, ?e0) (crop rect_vertices ?e0 True steep_domain pts s)
         (rect_front None, rect_vertices) = Some (F', V') \<and> marked' = [] @ [0]"
    by blast
  from a m0 have ps: "pts = [(0, 0), (3 / 2, 0), (21 / 4, 0)]" "s = 21 / 16" by simp_all
  from b [unfolded x0] ps have b0: "marches_along ?sf (edge_tangent rect_vertices ?e0) (0, 0)
      [(3 / 2, 0), (21 / 4, 0)]" by simp
  from d have d0: "create_sub_edges (0, ?e0) [(0, 0), (1 / 4, 0), (4, 0)]
      (rect_front None, rect_vertices) = Some (F', V') \<and> marked' = [0]"
    unfolding ps c0 by simp
  with h0 have g0: "\<exists>F' V'. refine_body True steep_domain (0, ?e0) ?st = Some ((F', V'), [0]) \<and>
      create_sub_edges (0, ?e0) [(0, 0), (1 / 4, 0), (4, 0)] (rect_front None, rect_vertices) =
        Some (F', V')"
    by blast
  \<comment> \<open>the top edge: the size function is smaller at \<open>v2\<close>\<close>
  have r2: "?sf (xy (v_heap rect_vertices (v1 ?e2))) = 5" "?sf (xy (v_heap rect_vertices (v2 ?e2))) = 1"
    by (simp_all add: rect_eval steep_domain_def)
  have l2: "?sf (xy (v_heap rect_vertices (v2 ?e2))) < ?sf (xy (v_heap rect_vertices (v1 ?e2)))"
    by (simp add: r2)
  have m2: "marched rect_vertices ?e2 False 5 1 steep_domain =
      Some ([(0, 1), (3 / 2, 1), (21 / 4, 1)], 21 / 16)"
    by (simp add: ev)
  have c2: "rev (crop rect_vertices ?e2 False steep_domain [(0, 1), (3 / 2, 1), (21 / 4, 1)] (21 / 16)) =
      [(4, 1), (1 / 4, 1), (0, 1)]"
    by (simp add: ev)
  have x2: "xy (v_heap rect_vertices (v2 ?e2)) = (0, 1)" by (simp add: rect_eval)
  from refine_body_returns(2) obtain F'' V'' marked'' where
    h2: "refine_body True steep_domain (2, ?e2) ?st = Some ((F'', V''), marked'')" by blast
  from marching_direction [OF h2, unfolded r2] lt obtain pts' s' where
    a': "marched rect_vertices ?e2 False 5 1 steep_domain = Some (pts', s')"
    and b': "marches_along ?sf (vneg (edge_tangent rect_vertices ?e2))
         (xy (v_heap rect_vertices (v2 ?e2))) (tl pts')"
    and d': "length (rev (crop rect_vertices ?e2 False steep_domain pts' s')) < 3 \<and>
         F'' = rect_front None \<and> V'' = rect_vertices \<and> marked'' = [] \<or>
       3 \<le> length (rev (crop rect_vertices ?e2 False steep_domain pts' s')) \<and>
       create_sub_edges (2, ?e2) (rev (crop rect_vertices ?e2 False steep_domain pts' s'))
         (rect_front None, rect_vertices) = Some (F'', V'') \<and> marked'' = [] @ [2]"
    by blast
  from a' m2 have ps': "pts' = [(0, 1), (3 / 2, 1), (21 / 4, 1)]" "s' = 21 / 16" by simp_all
  from b' [unfolded x2] ps' have b2: "marches_along ?sf (vneg (edge_tangent rect_vertices ?e2)) (0, 1)
      [(3 / 2, 1), (21 / 4, 1)]" by simp
  from d' have d2: "create_sub_edges (2, ?e2) [(4, 1), (1 / 4, 1), (0, 1)]
      (rect_front None, rect_vertices) = Some (F'', V'') \<and> marked'' = [2]"
    unfolding ps' c2 by simp
  with h2 have g2: "\<exists>F' V'. refine_body True steep_domain (2, ?e2) ?st = Some ((F', V'), [2]) \<and>
      create_sub_edges (2, ?e2) [(4, 1), (1 / 4, 1), (0, 1)] (rect_front None, rect_vertices) =
        Some (F', V')"
    by blast
  show ?thesis
    by (intro conjI) (rule g0, rule l0, rule m0, rule b0, rule c0, rule g2, rule l2, rule m2,
      rule b2, rule c2)
qed


theorem equal_density_direction_witness:
  "(\<exists>F' V'. refine_body True bump_domain (0, rect_edges ! 0)
        ((rect_front None, rect_vertices), []) = Some ((F', V'), [0]) \<and>
      create_sub_edges (0, rect_edges ! 0) [(0, 0), (7 / 4, 0), (13 / 4, 0), (4, 0)]
        (rect_front None, rect_vertices) = Some (F', V')) \<and>
   size_function bump_domain (xy (v_heap rect_vertices (v1 (rect_edges ! 0)))) =
     size_function bump_domain (xy (v_heap rect_vertices (v2 (rect_edges ! 0)))) \<and>
   marched rect_vertices (rect_edges ! 0) False 1 1 bump_domain =
     Some ([(4, 0), (3, 0), (1, 0), (- 1, 0)], 5 / 4) \<and>
   marches_along (size_function bump_domain) (vneg (edge_tangent rect_vertices (rect_edges ! 0)))
     (4, 0) [(3, 0), (1, 0), (- 1, 0)] \<and>
   rev (crop rect_vertices (rect_edges ! 0) False bump_domain
          [(4, 0), (3, 0), (1, 0), (- 1, 0)] (5 / 4)) =
     [(0, 0), (7 / 4, 0), (13 / 4, 0), (4, 0)]"
proof -
  let ?st = "((rect_front None, rect_vertices), [])"
  let ?sf = "size_function bump_domain"
  let ?e0 = "rect_edges ! 0"
  note ev = placement_eval geom_eval rect_eval bump_domain_def
  have r: "?sf (xy (v_heap rect_vertices (v1 ?e0))) = 1" "?sf (xy (v_heap rect_vertices (v2 ?e0))) = 1"
    by (simp_all add: rect_eval bump_domain_def)
  have q: "?sf (xy (v_heap rect_vertices (v1 ?e0))) = ?sf (xy (v_heap rect_vertices (v2 ?e0)))"
    by (simp add: r)
  have m: "marched rect_vertices ?e0 False 1 1 bump_domain =
      Some ([(4, 0), (3, 0), (1, 0), (- 1, 0)], 5 / 4)"
    by (simp add: ev)
  have c: "rev (crop rect_vertices ?e0 False bump_domain [(4, 0), (3, 0), (1, 0), (- 1, 0)] (5 / 4)) =
      [(0, 0), (7 / 4, 0), (13 / 4, 0), (4, 0)]"
    by (simp add: ev)
  have x: "xy (v_heap rect_vertices (v2 ?e0)) = (4, 0)" by (simp add: rect_eval)
  from refine_body_returns(3) obtain F' V' marked' where
    h: "refine_body True bump_domain (0, ?e0) ?st = Some ((F', V'), marked')" by blast
  from equal_density_direction [OF h q, unfolded r] obtain pts s where
    a: "marched rect_vertices ?e0 False 1 1 bump_domain = Some (pts, s)"
    and b: "marches_along ?sf (vneg (edge_tangent rect_vertices ?e0))
         (xy (v_heap rect_vertices (v2 ?e0))) (tl pts)"
    and d: "length (rev (crop rect_vertices ?e0 False bump_domain pts s)) < 3 \<and>
         F' = rect_front None \<and> V' = rect_vertices \<and> marked' = [] \<or>
       3 \<le> length (rev (crop rect_vertices ?e0 False bump_domain pts s)) \<and>
       create_sub_edges (0, ?e0) (rev (crop rect_vertices ?e0 False bump_domain pts s))
         (rect_front None, rect_vertices) = Some (F', V') \<and> marked' = [] @ [0]"
    by blast
  from a m have ps: "pts = [(4, 0), (3, 0), (1, 0), (- 1, 0)]" "s = 5 / 4" by simp_all
  from b [unfolded x] ps have b0: "marches_along ?sf (vneg (edge_tangent rect_vertices ?e0)) (4, 0)
      [(3, 0), (1, 0), (- 1, 0)]" by simp
  from d have d0: "create_sub_edges (0, ?e0) [(0, 0), (7 / 4, 0), (13 / 4, 0), (4, 0)]
      (rect_front None, rect_vertices) = Some (F', V') \<and> marked' = [0]"
    unfolding ps c by simp
  with h have g: "\<exists>F' V'. refine_body True bump_domain (0, ?e0) ?st = Some ((F', V'), [0]) \<and>
      create_sub_edges (0, ?e0) [(0, 0), (7 / 4, 0), (13 / 4, 0), (4, 0)]
        (rect_front None, rect_vertices) = Some (F', V')"
    by blast
  show ?thesis by (intro conjI) (rule g, rule q, rule m, rule b0, rule c)
qed

end
